theory Spec2Isabelle
  imports
    Main
    "HOL-Library.Char_ord"
    "HOL-Library.List_Lexorder"
    "HOL-Library.Product_Lexorder"
begin

section \<open>The driver table generator \<open>devices/create_driver_table.py\<close>\<close>

text \<open>
  The script lists a directory of driver sources, reads kernel versions off the file
  names with a regular expression, collects them in a dict from version to the set of
  driver names, and renders the dict as a table of \<open>X\<close> and \<open>-\<close> cells.

  Modelling decisions.
  \<^item> A Python \<open>str\<close> is a \<open>string\<close>: the characters are the code points below 256. On
    these, the class \<open>\d\<close> of a \<open>str\<close> pattern is exactly \<open>0\<close> to \<open>9\<close>, and \<open>str\<close>
    comparison (by code point) is the lexicographic order of \<open>Char_ord\<close> and
    \<open>List_Lexorder\<close>.
  \<^item> A Python \<open>int\<close> is an \<open>int\<close>; tuples of them compare lexicographically
    (\<open>Product_Lexorder\<close>).
  \<^item> The dict \<open>driver_table\<close> is an association list in insertion order, its values
    (sets of driver names, only ever tested for membership) are HOL sets.
  \<^item> The set of versions returned by \<open>filter_versions\<close> is a duplicate-free list in
    insertion order. The order in which Python enumerates such a set is not
    insertion order, so the loop over it runs through \<open>iter versions\<close> for a
    parameter \<open>iter\<close>, the enumeration order of the interpreter.
  \<^item> The file system is a function \<open>fs\<close> from a path to \<open>Some\<close> list of the names of
    its files, or \<open>None\<close> when the path cannot be listed.
  \<^item> Every exception of the source is a value \<open>Inl e\<close> of the result. The conversions
    \<open>int\<close> and \<open>str\<close> are exact: a file name is far shorter than the interpreter's limit on
    the digits of a conversion.
\<close>

subsection \<open>Errors, characters\<close>

datatype error =
    StopIteration     \<comment> \<open>\<open>next\<close> on a \<open>walk\<close> that yields nothing\<close>
  | KeyError          \<comment> \<open>subscript of a dict with a missing key\<close>
  | IndexError        \<comment> \<open>subscript of a list out of range\<close>
  | PatternNotModelled \<comment> \<open>a pattern outside the modelled fragment of \<open>re\<close>\<close>

definition newline :: char where
  "newline = CHR 0x0A"

definition backslash :: char where
  "backslash = CHR 0x5C"

definition is_digit :: "char \<Rightarrow> bool" where
  "is_digit c = (CHR ''0'' \<le> c \<and> c \<le> CHR ''9'')"

definition digit_value :: "char \<Rightarrow> int" where
  "digit_value c = int (of_char c) - 48"

text \<open>\<open>int(s)\<close> on a string of decimal digits.\<close>

definition py_int :: "string \<Rightarrow> int" where
  "py_int s = foldl (\<lambda>a c. 10 * a + digit_value c) 0 s"

text \<open>\<open>str(n)\<close>, which is also what \<open>{}\<close> formats an \<open>int\<close> to.\<close>

definition digit_char :: "nat \<Rightarrow> char" where
  "digit_char n = ''0123456789'' ! n"

fun str_nat :: "nat \<Rightarrow> string" where
  "str_nat n = (if n < 10 then [digit_char n] else str_nat (n div 10) @ [digit_char (n mod 10)])"

declare str_nat.simps [simp del]

definition py_str :: "int \<Rightarrow> string" where
  "py_str i = (if i < 0 then CHR ''-'' # str_nat (nat (- i)) else str_nat (nat i))"

text \<open>
  The format specifications \<open>{: <w}\<close>, \<open>{: >w}\<close> and \<open>{: ^w}\<close>: fill with spaces to width
  \<open>w\<close>, the text to the left, to the right, or centred with the odd space on the right.
  A text longer than \<open>w\<close> is left as it is.
\<close>

definition format_left :: "string \<Rightarrow> nat \<Rightarrow> string" where
  "format_left s w = s @ replicate (w - length s) CHR '' ''"

definition format_right :: "string \<Rightarrow> nat \<Rightarrow> string" where
  "format_right s w = replicate (w - length s) CHR '' '' @ s"

definition format_center :: "string \<Rightarrow> nat \<Rightarrow> string" where
  "format_center s w =
     (let n_lpadding = (w - length s) div 2;
          n_rpadding = (w - length s) - n_lpadding
      in replicate n_lpadding CHR '' '' @ s @ replicate n_rpadding CHR '' '')"

subsection \<open>The catalog\<close>

definition DRIVER_MAP :: "(string \<times> string \<times> string) list" where
  "DRIVER_MAP =
    [(''.'', ''8139too'', ''8139too''),
     (''stmmac'', ''dwmac-intel'', ''dwmac-intel''),
     (''.'', ''e100'', ''e100''),
     (''e1000'', ''e1000'', ''e1000_main''),
     (''e1000e'', ''e1000e'', ''netdev''),
     (''genet'', ''bcmgenet'', ''bcmgenet''),
     (''igb'', ''igb'', ''igb_main''),
     (''igc'', ''igc'', ''igc_main''),
     (''.'', ''r8169'', ''r8169''),
     (''r8169'', ''r8169'', ''r8169_main''),
     (''stmmac'', ''stmmac-pci'', ''stmmac_pci'')]"

definition DRIVERS :: "string list" where
  "DRIVERS = sorted_list_of_set (set (map (\<lambda>x. fst (snd x)) DRIVER_MAP))"

subsection \<open>The regular expression\<close>

text \<open>
  The fragment of \<open>re\<close> that the pattern of \<open>compile_regex\<close> needs: \<open>^\<close>, \<open>$\<close>, a literal
  character, and the capturing group \<open>([\d]+)\<close>. \<open>re_match_from items pos s\<close> matches the
  items against the input \<open>s\<close> that starts at position \<open>pos\<close> of the subject and returns
  the captured groups. As in Python, \<open>$\<close> (without \<open>MULTILINE\<close>) matches at the end of the
  subject and also just before a newline that ends the subject; \<open>+\<close> is greedy and gives
  characters back (longest run of digits first); and \<open>match\<close> does not require the
  pattern to consume the whole subject.
\<close>

datatype re_item = Bol | Eol | Lit char | Digits_Group

fun first_some :: "'a option list \<Rightarrow> 'a option" where
  "first_some [] = None"
| "first_some (None # xs) = first_some xs"
| "first_some (Some x # xs) = Some x"

fun re_match_from :: "re_item list \<Rightarrow> nat \<Rightarrow> string \<Rightarrow> string list option" where
  "re_match_from [] pos s = Some []"
| "re_match_from (Bol # items) pos s =
     (if pos = 0 then re_match_from items pos s else None)"
| "re_match_from (Eol # items) pos s =
     (if s = [] \<or> s = [newline] then re_match_from items pos s else None)"
| "re_match_from (Lit c # items) pos s =
     (case s of
        [] \<Rightarrow> None
      | x # xs \<Rightarrow> if x = c then re_match_from items (Suc pos) xs else None)"
| "re_match_from (Digits_Group # items) pos s =
     first_some
       (map (\<lambda>n. map_option ((#) (take n s)) (re_match_from items (pos + n) (drop n s)))
            (rev [1..<Suc (length (takeWhile is_digit s))]))"

definition re_match :: "re_item list \<Rightarrow> string \<Rightarrow> string list option" where
  "re_match rex file = re_match_from rex 0 file"

text \<open>The characters that are not literals in a pattern.\<close>

definition regex_special :: "char \<Rightarrow> bool" where
  "regex_special c = (c \<in> set ''.^$*+?{}[]()|'' \<or> c = backslash)"

text \<open>
  \<open>compile_regex\<close> pastes \<open>prefix\<close> and \<open>file_extension\<close> into the pattern text
  \<open>^prefix-([\d]+)\.([\d]+)-ethercat\.file_extension$\<close> as they are. When neither holds a
  special character they stand for themselves and the compiled pattern is the list of
  items below; every prefix of the catalog and the extension \<open>c\<close> are of this kind.
  Other arguments are outside the model (\<open>None\<close>).
\<close>

definition compile_regex :: "string \<Rightarrow> string \<Rightarrow> re_item list option" where
  "compile_regex prefix file_extension =
     (if list_ex regex_special (prefix @ file_extension) then None
      else Some ([Bol] @ map Lit prefix
                 @ [Lit CHR ''-'', Digits_Group, Lit CHR ''.'', Digits_Group]
                 @ map Lit ''-ethercat'' @ [Lit CHR ''.'']
                 @ map Lit file_extension @ [Eol]))"

subsection \<open>Scanning\<close>

type_synonym version = "int \<times> int"

type_synonym driver_table = "(version \<times> string set) list"

text \<open>\<open>ans.add(x)\<close> on the set \<open>ans\<close>.\<close>

definition set_add :: "'a \<Rightarrow> 'a list \<Rightarrow> 'a list" where
  "set_add x ans = (if x \<in> set ans then ans else ans @ [x])"

text \<open>
  One round of the loop of \<open>filter_versions\<close>. The pattern has two groups, so
  \<open>match.group(1, 2)\<close> always finds them.
\<close>

definition filter_step :: "re_item list \<Rightarrow> string \<Rightarrow> version list \<Rightarrow> version list" where
  "filter_step rex file ans =
     (case re_match rex file of
        None \<Rightarrow> ans
      | Some groups \<Rightarrow>
          (case groups of
             major # minor # _ \<Rightarrow> set_add (py_int major, py_int minor) ans
           | _ \<Rightarrow> ans))"

definition filter_versions :: "string list \<Rightarrow> string \<Rightarrow> string \<Rightarrow> error + version list" where
  "filter_versions file_list prefix file_extension =
     (case compile_regex prefix file_extension of
        None \<Rightarrow> Inl PatternNotModelled
      | Some rex \<Rightarrow> Inr (fold (filter_step rex) file_list []))"

text \<open>
  The body of the loop of \<open>add_driver\<close>: create the set of the version when the dict
  has none, then add the driver to the set stored under the version.
\<close>

definition add_version :: "string \<Rightarrow> version \<Rightarrow> driver_table \<Rightarrow> error + driver_table" where
  "add_version driver version driver_table =
     (let tbl = (if version \<notin> fst ` set driver_table
                 then driver_table @ [(version, {})] else driver_table)
      in case map_of tbl version of
           None \<Rightarrow> Inl KeyError
         | Some _ \<Rightarrow>
             Inr (map (\<lambda>(k, s). if k = version then (k, insert driver s) else (k, s)) tbl))"

fun add_driver :: "version list \<Rightarrow> string \<Rightarrow> driver_table \<Rightarrow> error + driver_table" where
  "add_driver [] driver driver_table = Inr driver_table"
| "add_driver (version # versions) driver driver_table =
     (case add_version driver version driver_table of
        Inl e \<Rightarrow> Inl e
      | Inr tbl \<Rightarrow> add_driver versions driver tbl)"

text \<open>\<open>os.path.join\<close> (POSIX) of two components.\<close>

definition path_join :: "string \<Rightarrow> string \<Rightarrow> string" where
  "path_join a b =
     (if b \<noteq> [] \<and> hd b = CHR ''/'' then b
      else if a = [] \<or> last a = CHR ''/'' then a @ b
      else a @ ''/'' @ b)"

text \<open>
  \<open>next(walk(path))[2]\<close>. \<open>walk\<close> ignores the error of a directory it cannot list and
  yields nothing, so that \<open>next\<close> raises \<open>StopIteration\<close>.
\<close>

definition walk_files :: "(string \<Rightarrow> string list option) \<Rightarrow> string \<Rightarrow> error + string list" where
  "walk_files fs path = (case fs path of None \<Rightarrow> Inl StopIteration | Some files \<Rightarrow> Inr files)"

text \<open>The loop of \<open>get_all_drivers\<close> over the catalog, from the table built so far.\<close>

fun scan_entries ::
  "(version list \<Rightarrow> version list) \<Rightarrow> (string \<Rightarrow> string list option) \<Rightarrow> string \<Rightarrow> string list
     \<Rightarrow> (string \<times> string \<times> string) list \<Rightarrow> driver_table \<Rightarrow> error + driver_table" where
  "scan_entries iter fs drivers_dir files [] driver_table = Inr driver_table"
| "scan_entries iter fs drivers_dir files ((subdir, driver_name, file_prefix) # entries) driver_table =
     (case (if subdir = ''.'' then Inr files else walk_files fs (path_join drivers_dir subdir)) of
        Inl e \<Rightarrow> Inl e
      | Inr tmp_files \<Rightarrow>
          (case filter_versions tmp_files file_prefix ''c'' of
             Inl e \<Rightarrow> Inl e
           | Inr versions \<Rightarrow>
               (case add_driver (iter versions) driver_name driver_table of
                  Inl e \<Rightarrow> Inl e
                | Inr tbl \<Rightarrow> scan_entries iter fs drivers_dir files entries tbl)))"

definition get_all_drivers ::
  "(version list \<Rightarrow> version list) \<Rightarrow> (string \<Rightarrow> string list option) \<Rightarrow> string
     \<Rightarrow> error + driver_table" where
  "get_all_drivers iter fs drivers_dir =
     (case walk_files fs drivers_dir of
        Inl e \<Rightarrow> Inl e
      | Inr files \<Rightarrow> scan_entries iter fs drivers_dir files DRIVER_MAP [])"

subsection \<open>The table\<close>

definition parse_row :: "driver_table \<Rightarrow> version \<Rightarrow> error + string list" where
  "parse_row dict_data key =
     (case map_of dict_data key of
        None \<Rightarrow> Inl KeyError
      | Some row_set \<Rightarrow>
          Inr (map (\<lambda>driver. if driver \<in> row_set then ''X'' else ''-'') DRIVERS))"

text \<open>\<open>"{}.{: <2}".format(*key)\<close>\<close>

definition version_label :: "version \<Rightarrow> string" where
  "version_label key = py_str (fst key) @ ''.'' @ format_left (py_str (snd key)) 2"

fun table_rows :: "driver_table \<Rightarrow> version list \<Rightarrow> string list list \<Rightarrow> error + string list list" where
  "table_rows dict_data [] ans = Inr ans"
| "table_rows dict_data (key # keys) ans =
     (case parse_row dict_data key of
        Inl e \<Rightarrow> Inl e
      | Inr row \<Rightarrow> table_rows dict_data keys (ans @ [version_label key # row]))"

definition compute_table :: "driver_table \<Rightarrow> error + string list list" where
  "compute_table dict_data =
     (let keys = rev (sort (map fst dict_data));
          ans = [''Kernel'' # DRIVERS]
      in table_rows dict_data keys ans)"

subsection \<open>Markdown\<close>

definition get_max_width :: "string list \<Rightarrow> nat" where
  "get_max_width row = fold (\<lambda>cell ans. if length cell > ans then length cell else ans) row 0"

definition cell_fmt_center :: "nat \<Rightarrow> string \<Rightarrow> string" where
  "cell_fmt_center width cell = ''| '' @ format_center cell width @ '' ''"

definition cell_fmt_left :: "nat \<Rightarrow> string \<Rightarrow> string" where
  "cell_fmt_left width cell = ''| '' @ format_left cell width @ '' ''"

definition cell_fmt_right :: "nat \<Rightarrow> string \<Rightarrow> string" where
  "cell_fmt_right width cell = ''| '' @ format_right cell width @ '' ''"

fun dump_rows :: "nat \<Rightarrow> string list list \<Rightarrow> string \<Rightarrow> error + string" where
  "dump_rows width [] ans = Inr ans"
| "dump_rows width (row # rows) ans =
     (case row of
        [] \<Rightarrow> Inl IndexError
      | cell0 # cells \<Rightarrow>
          dump_rows width rows
            (fold (\<lambda>cell a. a @ cell_fmt_center width cell) cells
               (ans @ [newline] @ cell_fmt_right width cell0) @ ''|''))"

definition dump_markdown :: "string list list \<Rightarrow> error + string" where
  "dump_markdown table_data =
     (case table_data of
        [] \<Rightarrow> Inl IndexError
      | header # rows \<Rightarrow>
          (let width = get_max_width header in
           case header of
             [] \<Rightarrow> Inl IndexError
           | cell0 # cells \<Rightarrow>
               (let ans = cell_fmt_left width cell0;
                    ans = fold (\<lambda>cell a. a @ cell_fmt_center width cell) cells ans;
                    ans = ans @ ''|'' @ [newline] @ ''|-'' @ replicate width CHR ''-'' @ '':|'';
                    ans = fold (\<lambda>i a. a @ '':'' @ replicate width CHR ''-'' @ '':|'')
                            [0..<length header - 1] ans
                in dump_rows width rows ans)))"

subsection \<open>Reading a table\<close>

text \<open>
  Two abbreviations for the statements below: the set stored under a key of the dict
  (empty when the key is missing) and the row that \<open>compute_table\<close> appends for a key.
\<close>

definition drivers_of :: "driver_table \<Rightarrow> version \<Rightarrow> string set" where
  "drivers_of dict_data key = (case map_of dict_data key of None \<Rightarrow> {} | Some row_set \<Rightarrow> row_set)"

definition table_row :: "driver_table \<Rightarrow> version \<Rightarrow> string list" where
  "table_row dict_data key =
     version_label key # map (\<lambda>driver. if driver \<in> drivers_of dict_data key then ''X'' else ''-'') DRIVERS"


text \<open>
  The versions that one entry of the catalog finds: those of its directory's files, and
  none when the directory cannot be listed.
\<close>

definition found_versions ::
  "(string \<Rightarrow> string list option) \<Rightarrow> string \<Rightarrow> string \<Rightarrow> string \<Rightarrow> version set" where
  "found_versions fs drivers_dir subdir file_prefix =
     (case walk_files fs (if subdir = ''.'' then drivers_dir else path_join drivers_dir subdir) of
        Inl e \<Rightarrow> {}
      | Inr tmp_files \<Rightarrow>
          (case filter_versions tmp_files file_prefix ''c'' of
             Inl e \<Rightarrow> {}
           | Inr versions \<Rightarrow> set versions))"

text \<open>
  The cell of a table in the data row labelled with a version and under the column
  headed by a driver name, if there are such a row and such a column.
\<close>

definition table_cell :: "string list list \<Rightarrow> version \<Rightarrow> string \<Rightarrow> string option" where
  "table_cell table_data key driver =
     (case table_data of
        [] \<Rightarrow> None
      | header # rows \<Rightarrow>
          (case find (\<lambda>row. row \<noteq> [] \<and> hd row = version_label key) rows of
             None \<Rightarrow> None
           | Some row \<Rightarrow> map_of (zip (tl header) (tl row)) driver))"

text \<open>The table of the main program: \<open>compute_table(get_all_drivers(devices_dir))\<close>.\<close>

definition main_table ::
  "(version list \<Rightarrow> version list) \<Rightarrow> (string \<Rightarrow> string list option) \<Rightarrow> string
     \<Rightarrow> error + string list list" where
  "main_table iter fs devices_dir =
     (case get_all_drivers iter fs devices_dir of
        Inl e \<Rightarrow> Inl e
      | Inr dict_data \<Rightarrow> compute_table dict_data)"

text \<open>
  The claims' notion of a file name for a version: the name is, in full,
  \<open>prefix-major.minor-ethercat.ext\<close>, where \<open>major\<close> and \<open>minor\<close> are non-empty texts of
  decimal digits that denote the two numbers of the version. This predicate is written
  from the claims, to compare \<open>filter_versions\<close> with.
\<close>

definition full_match :: "string \<Rightarrow> string \<Rightarrow> version \<Rightarrow> string \<Rightarrow> bool" where
  "full_match prefix ext v file =
     (\<exists>major minor. major \<noteq> [] \<and> minor \<noteq> []
        \<and> list_all is_digit major \<and> list_all is_digit minor
        \<and> v = (py_int major, py_int minor)
        \<and> file = prefix @ ''-'' @ major @ ''.'' @ minor @ ''-ethercat.'' @ ext)"

section \<open>Facts about the model\<close>

subsection \<open>Numbers and labels\<close>

lemma digit_char_is_digit: "n < 10 \<Longrightarrow> is_digit (digit_char n)"
proof -
  assume "n < 10"
  then have "n \<in> {0,1,2,3,4,5,6,7,8,9}" by auto
  then show ?thesis
    by (auto simp: digit_char_def is_digit_def less_eq_char_def)
qed

lemma digit_value_digit_char: "n < 10 \<Longrightarrow> digit_value (digit_char n) = int n"
proof -
  assume "n < 10"
  then have "n \<in> {0,1,2,3,4,5,6,7,8,9}" by auto
  then show ?thesis
    by (auto simp: digit_char_def digit_value_def)
qed

lemma py_int_snoc: "py_int (xs @ [c]) = 10 * py_int xs + digit_value c"
  by (simp add: py_int_def)

lemma py_int_str_nat: "py_int (str_nat n) = int n"
proof (induction n rule: str_nat.induct)
  case (1 n)
  show ?case
  proof (cases "n < 10")
    case True
    then show ?thesis
      by (subst str_nat.simps) (simp add: py_int_def digit_value_digit_char)
  next
    case False
    then have "py_int (str_nat (n div 10)) = int (n div 10)" using 1 by simp
    then show ?thesis using False
      by (subst str_nat.simps) (simp add: py_int_snoc digit_value_digit_char zdiv_int zmod_int)
  qed
qed

lemma str_nat_digits: "c \<in> set (str_nat n) \<Longrightarrow> is_digit c"
proof (induction n rule: str_nat.induct)
  case (1 n)
  show ?case
  proof (cases "n < 10")
    case True
    then show ?thesis using 1(2)
      by (subst (asm) str_nat.simps) (simp add: digit_char_is_digit)
  next
    case False
    then show ?thesis using 1
      by (subst (asm) (2) str_nat.simps) (auto simp: digit_char_is_digit)
  qed
qed

lemma str_nat_nonempty: "str_nat n \<noteq> []"
  by (subst str_nat.simps) simp

lemma py_str_chars: "c \<in> set (py_str i) \<Longrightarrow> is_digit c \<or> c = CHR ''-''"
  by (auto simp: py_str_def dest: str_nat_digits split: if_splits)

lemma py_str_inj: "py_str i = py_str j \<Longrightarrow> i = j"
proof -
  assume eq: "py_str i = py_str j"
  have neg: "hd (py_str k) = CHR ''-'' \<longleftrightarrow> k < 0" for k
  proof (cases "k < 0")
    case True
    then show ?thesis by (simp add: py_str_def)
  next
    case False
    then have "hd (str_nat (nat k)) \<in> set (str_nat (nat k))"
      using str_nat_nonempty by simp
    then have "is_digit (hd (str_nat (nat k)))" by (rule str_nat_digits)
    then have "hd (str_nat (nat k)) \<noteq> CHR ''-''"
      by (auto simp: is_digit_def less_eq_char_def)
    with False show ?thesis by (simp add: py_str_def)
  qed
  show "i = j"
  proof (cases "i < 0")
    case True
    then have "j < 0" using eq neg by metis
    with True eq have "str_nat (nat (- i)) = str_nat (nat (- j))"
      by (simp add: py_str_def)
    then have "py_int (str_nat (nat (- i))) = py_int (str_nat (nat (- j)))" by simp
    then show ?thesis using True \<open>j < 0\<close> by (simp add: py_int_str_nat)
  next
    case False
    then have "\<not> j < 0" using eq neg by metis
    with False eq have "str_nat (nat i) = str_nat (nat j)"
      by (simp add: py_str_def)
    then have "py_int (str_nat (nat i)) = py_int (str_nat (nat j))" by simp
    then show ?thesis using False \<open>\<not> j < 0\<close> by (simp add: py_int_str_nat)
  qed
qed

lemma takeWhile_stop:
  "\<forall>x\<in>set xs. P x \<Longrightarrow> \<not> P y \<Longrightarrow> takeWhile P (xs @ y # zs) = xs"
  by (induction xs) auto

lemma dropWhile_stop:
  "\<forall>x\<in>set xs. P x \<Longrightarrow> \<not> P y \<Longrightarrow> dropWhile P (xs @ y # zs) = y # zs"
  by (induction xs) auto

lemma takeWhile_pad:
  "\<forall>x\<in>set xs. x \<noteq> c \<Longrightarrow> takeWhile (\<lambda>x. x \<noteq> c) (xs @ replicate n c) = xs"
  by (induction xs) (auto simp: takeWhile_replicate)

lemma version_label_inj: "version_label u = version_label v \<Longrightarrow> u = v"
proof -
  assume eq: "version_label u = version_label v"
  have nodot: "\<forall>x\<in>set (py_str k). x \<noteq> CHR ''.''" for k
    using py_str_chars [of "CHR ''.''" k] by (auto simp: is_digit_def less_eq_char_def)
  have nosp: "\<forall>x\<in>set (py_str k). x \<noteq> CHR '' ''" for k
    using py_str_chars [of "CHR '' ''" k] by (auto simp: is_digit_def less_eq_char_def)
  have major: "takeWhile (\<lambda>x. x \<noteq> CHR ''.'') (version_label w) = py_str (fst w)" for w
    unfolding version_label_def by (simp add: takeWhile_stop nodot)
  have rest: "tl (dropWhile (\<lambda>x. x \<noteq> CHR ''.'') (version_label w)) = format_left (py_str (snd w)) 2" for w
    unfolding version_label_def by (simp add: dropWhile_stop nodot)
  have minor: "takeWhile (\<lambda>x. x \<noteq> CHR '' '') (format_left (py_str k) 2) = py_str k" for k
    unfolding format_left_def by (simp add: takeWhile_pad nosp)
  from eq have "py_str (fst u) = py_str (fst v)"
    using major by metis
  moreover from eq have "py_str (snd u) = py_str (snd v)"
    using rest minor by metis
  ultimately show "u = v"
    by (simp add: py_str_inj prod_eq_iff)
qed

subsection \<open>The computed table\<close>

lemma parse_row_key:
  "key \<in> fst ` set d \<Longrightarrow>
   parse_row d key = Inr (map (\<lambda>driver. if driver \<in> drivers_of d key then ''X'' else ''-'') DRIVERS)"
proof -
  assume "key \<in> fst ` set d"
  then obtain s where "map_of d key = Some s"
    by (metis map_of_eq_None_iff not_Some_eq)
  then show ?thesis by (simp add: parse_row_def drivers_of_def)
qed

lemma table_rows_eq:
  "set keys \<subseteq> fst ` set d \<Longrightarrow> table_rows d keys ans = Inr (ans @ map (table_row d) keys)"
proof (induction keys arbitrary: ans)
  case Nil
  then show ?case by simp
next
  case (Cons key keys)
  then show ?case by (simp add: parse_row_key table_row_def)
qed

lemma compute_table_eq:
  "compute_table d = Inr ((''Kernel'' # DRIVERS) # map (table_row d) (rev (sort (map fst d))))"
  by (simp add: compute_table_def table_rows_eq)

lemma DRIVERS_eq:
  "DRIVERS = [''8139too'', ''bcmgenet'', ''dwmac-intel'', ''e100'', ''e1000'',
              ''e1000e'', ''igb'', ''igc'', ''r8169'', ''stmmac-pci'']"
  by code_simp

lemma DRIVERS_set: "set DRIVERS = (\<lambda>x. fst (snd x)) ` set DRIVER_MAP"
  by (simp add: DRIVERS_def)

lemma DRIVERS_sorted: "sorted_wrt (<) DRIVERS"
  by (simp add: DRIVERS_def strict_sorted_iff)

lemma card_driver_names: "card ((\<lambda>x. fst (snd x)) ` set DRIVER_MAP) = length DRIVERS"
  by (simp add: DRIVERS_def)

lemma keys_descending:
  "distinct (map fst d) \<Longrightarrow>
   sorted_wrt (\<lambda>a b. fst b < fst a \<or> fst b = fst a \<and> snd b < snd a) (rev (sort (map fst (d :: driver_table))))"
proof -
  assume "distinct (map fst d)"
  then have "sorted_wrt (<) (sort (map fst d))"
    by (simp add: strict_sorted_iff)
  then have "sorted_wrt (\<lambda>a b. b < a) (rev (sort (map fst d)))"
    by (simp add: sorted_wrt_rev)
  moreover have "(b < a) = (fst b < fst a \<or> fst b = fst a \<and> snd b < snd a)" for a b :: version
    by (auto simp: less_prod_def)
  ultimately show ?thesis by simp
qed

lemma example_keys:
  assumes "distinct (map fst d)" and "fst ` set d = {(6, 1), (5, 15), (6, 0 :: int) :: version}"
  shows "rev (sort (map fst d)) = [(6, 1), (6, 0), (5, 15)]"
proof -
  have "sort (map fst d) = sorted_list_of_set (set (map fst d))"
    using sorted_list_of_set_sort_remdups [of "map fst d"] distinct_remdups_id [OF assms(1)]
    by simp
  also have "set (map fst d) = set [(6, 1), (5, 15), (6, 0)]"
    using assms(2) by simp
  also have "sorted_list_of_set (set [(6, 1), (5, 15), (6, 0 :: int) :: version]) = [(5, 15), (6, 0), (6, 1)]"
    by code_simp
  finally show ?thesis by simp
qed

lemma label_examples: "version_label (6, 1) = ''6.1 ''" "version_label (5, 15) = ''5.15''" "version_label (6, 0) = ''6.0 ''"
  by code_simp+

lemma count_label:
  "distinct keys \<Longrightarrow>
   length (filter (\<lambda>row. hd row = version_label key) (map (table_row d) keys)) = (if key \<in> set keys then 1 else 0)"
proof -
  assume dist: "distinct keys"
  have "filter (\<lambda>row. hd row = version_label key) (map (table_row d) keys)
        = map (table_row d) (filter (\<lambda>k. k = key) keys)"
    by (induction keys) (auto simp: table_row_def dest: version_label_inj)
  moreover have "length (filter (\<lambda>k. k = key) keys) = (if key \<in> set keys then 1 else 0)"
    using dist by (induction keys) auto
  ultimately show ?thesis by simp
qed

subsection \<open>Markdown\<close>

lemma get_max_width_Max: "get_max_width row = Max (insert 0 (length ` set row))"
proof -
  have "fold (\<lambda>cell ans. if length cell > ans then length cell else ans) row a
        = fold max (map length row) a" for a
    by (induction row arbitrary: a) (auto simp: max_def)
  then have "get_max_width row = fold max (map length row) 0"
    by (simp add: get_max_width_def)
  also have "\<dots> = Max (set (0 # map length row))"
    by (simp only: Max.set_eq_fold)
  finally show ?thesis by simp
qed

lemma fold_append_cells: "fold (\<lambda>cell a. a @ f cell) cells ans = ans @ concat (map f cells)"
  by (induction cells arbitrary: ans) auto

lemma dump_rows_eq:
  "\<forall>row\<in>set rows. row \<noteq> [] \<Longrightarrow>
   dump_rows width rows ans
     = Inr (ans @ concat (map (\<lambda>row. [newline] @ cell_fmt_right width (hd row)
                                     @ concat (map (cell_fmt_center width) (tl row)) @ ''|'') rows))"
proof (induction rows arbitrary: ans)
  case Nil
  then show ?case by simp
next
  case (Cons row rows)
  then obtain cell0 cells where "row = cell0 # cells"
    by (cases row) auto
  with Cons show ?case
    by (simp add: fold_append_cells)
qed

lemma dump_markdown_eq:
  assumes "header \<noteq> []" and "\<forall>row\<in>set rows. row \<noteq> []"
  shows "dump_markdown (header # rows)
     = Inr (cell_fmt_left (get_max_width header) (hd header)
            @ concat (map (cell_fmt_center (get_max_width header)) (tl header))
            @ ''|'' @ [newline]
            @ ''|-'' @ replicate (get_max_width header) CHR ''-'' @ '':|''
            @ concat (replicate (length header - 1)
                        ('':'' @ replicate (get_max_width header) CHR ''-'' @ '':|''))
            @ concat (map (\<lambda>row. [newline] @ cell_fmt_right (get_max_width header) (hd row)
                                   @ concat (map (cell_fmt_center (get_max_width header)) (tl row))
                                   @ ''|'') rows))"
proof -
  obtain cell0 cells where h: "header = cell0 # cells"
    using assms(1) by (cases header) auto
  show ?thesis
    unfolding dump_markdown_def h
    by (simp add: Let_def fold_append_cells map_replicate_const dump_rows_eq [OF assms(2)] del: replicate_Suc)
qed

lemma dump_markdown_compute_table:
  assumes "compute_table d = Inr table_data"
  shows "\<exists>text. dump_markdown table_data = Inr text"
proof -
  have t: "table_data = (''Kernel'' # DRIVERS) # map (table_row d) (rev (sort (map fst d)))"
    using assms compute_table_eq [of d] by simp
  have "''Kernel'' # DRIVERS \<noteq> []" by simp
  moreover have "\<forall>row\<in>set (map (table_row d) (rev (sort (map fst d)))). row \<noteq> []"
    by (simp add: table_row_def)
  ultimately show ?thesis
    unfolding t using dump_markdown_eq by blast
qed

lemma format_lengths:
  "length (format_left c w) = max w (length c)"
  "length (format_right c w) = max w (length c)"
  "length (format_center c w) = max w (length c)"
  by (auto simp: format_left_def format_right_def format_center_def Let_def)

lemma format_long:
  "w \<le> length c \<Longrightarrow> format_left c w = c"
  "w \<le> length c \<Longrightarrow> format_right c w = c"
  "w \<le> length c \<Longrightarrow> format_center c w = c"
  by (auto simp: format_left_def format_right_def format_center_def Let_def)

lemma format_padding:
  "\<exists>r. format_left c w = c @ replicate r CHR '' ''"
  "\<exists>l. format_right c w = replicate l CHR '' '' @ c"
  "\<exists>l r. format_center c w = replicate l CHR '' '' @ c @ replicate r CHR '' ''"
  by (auto simp: format_left_def format_right_def format_center_def Let_def)

subsection \<open>Scanning\<close>

lemma set_filter_step: "set (filter_step rex file ans) = set ans \<union> set (filter_step rex file [])"
  by (auto simp: filter_step_def set_add_def split: option.splits list.splits)

lemma set_fold_filter_step:
  "set (fold (filter_step rex) files ans) = set ans \<union> (\<Union>file\<in>set files. set (filter_step rex file []))"
proof (induction files arbitrary: ans)
  case Nil
  then show ?case by simp
next
  case (Cons f files)
  show ?case
    using set_filter_step [of rex f ans] by (auto simp: Cons.IH)
qed

lemma filter_versions_set_cong:
  "set files = set files' \<Longrightarrow>
   rel_sum (=) (\<lambda>vs vs'. set vs = set vs')
     (filter_versions files prefix ext) (filter_versions files' prefix ext)"
  by (simp add: filter_versions_def set_fold_filter_step split: option.splits)

lemma catalog_prefixes_compile:
  "\<forall>(subdir, driver_name, file_prefix)\<in>set DRIVER_MAP. compile_regex file_prefix ''c'' \<noteq> None"
  by code_simp

lemma map_of_update_value:
  "map_of (map (\<lambda>(k, s). if k = v then (k, f s) else (k, s)) xs) k
   = (if k = v then map_option f (map_of xs k) else map_of xs k)"
  by (induction xs) auto

lemma add_version_result:
  assumes "distinct (map fst tbl)"
  shows "\<exists>tbl'. add_version driver v tbl = Inr tbl'
           \<and> distinct (map fst tbl')
           \<and> fst ` set tbl' = insert v (fst ` set tbl)
           \<and> (\<forall>k. drivers_of tbl' k = (if k = v then insert driver (drivers_of tbl k) else drivers_of tbl k))"
proof -
  let ?tbl1 = "if v \<notin> fst ` set tbl then tbl @ [(v, {})] else tbl"
  let ?upd = "\<lambda>(k, s). if k = v then (k, insert driver s) else (k, s)"
  have fst_upd: "map fst (map ?upd xs) = map fst xs" for xs :: driver_table
    by (induction xs) auto
  have d1: "distinct (map fst ?tbl1)" using assms by auto
  have k1: "fst ` set ?tbl1 = insert v (fst ` set tbl)" by auto
  have "v \<in> fst ` set ?tbl1" by auto
  then obtain s where s: "map_of ?tbl1 v = Some s"
    by (metis map_of_eq_None_iff not_Some_eq)
  have m1: "drivers_of ?tbl1 k = drivers_of tbl k" for k
    by (auto simp: drivers_of_def map_of_eq_None_iff [THEN iffD2] split: option.splits if_splits)
  have res: "add_version driver v tbl = Inr (map ?upd ?tbl1)"
    using s unfolding add_version_def Let_def by simp
  have "distinct (map fst (map ?upd ?tbl1))"
    using d1 unfolding fst_upd .
  moreover have "fst ` set (map ?upd ?tbl1) = insert v (fst ` set tbl)"
    using k1 fst_upd [of ?tbl1] by (metis list.set_map)
  moreover have "drivers_of (map ?upd ?tbl1) k
      = (if k = v then insert driver (drivers_of tbl k) else drivers_of tbl k)" for k
  proof -
    have "drivers_of (map ?upd ?tbl1) k
      = (if k = v then insert driver (drivers_of ?tbl1 k) else drivers_of ?tbl1 k)"
      unfolding drivers_of_def map_of_update_value using s
      by (auto split: option.splits)
    then show ?thesis by (simp only: m1)
  qed
  ultimately show ?thesis using res by blast
qed

lemma add_driver_result:
  assumes "distinct (map fst tbl)"
  shows "\<exists>tbl'. add_driver versions driver tbl = Inr tbl'
           \<and> distinct (map fst tbl')
           \<and> fst ` set tbl' = set versions \<union> fst ` set tbl
           \<and> (\<forall>k. drivers_of tbl' k
                    = (if k \<in> set versions then insert driver (drivers_of tbl k) else drivers_of tbl k))"
  using assms
proof (induction versions arbitrary: tbl)
  case Nil
  then show ?case by simp
next
  case (Cons v versions)
  obtain tbl1 where 1: "add_version driver v tbl = Inr tbl1"
    and d1: "distinct (map fst tbl1)"
    and k1: "fst ` set tbl1 = insert v (fst ` set tbl)"
    and m1: "\<forall>k. drivers_of tbl1 k = (if k = v then insert driver (drivers_of tbl k) else drivers_of tbl k)"
    using add_version_result [OF Cons.prems] by blast
  obtain tbl' where 2: "add_driver versions driver tbl1 = Inr tbl'"
    and d2: "distinct (map fst tbl')"
    and k2: "fst ` set tbl' = set versions \<union> fst ` set tbl1"
    and m2: "\<forall>k. drivers_of tbl' k
                    = (if k \<in> set versions then insert driver (drivers_of tbl1 k) else drivers_of tbl1 k)"
    using Cons.IH [OF d1] by blast
  have "add_driver (v # versions) driver tbl = Inr tbl'"
    using 1 2 by simp
  moreover have "fst ` set tbl' = set (v # versions) \<union> fst ` set tbl"
    using k1 k2 by auto
  moreover have "\<forall>k. drivers_of tbl' k
                    = (if k \<in> set (v # versions) then insert driver (drivers_of tbl k) else drivers_of tbl k)"
    using m1 m2 by auto
  ultimately show ?case using d2 by blast
qed

lemma scan_entries_unlistable:
  "subdir \<noteq> ''.'' \<Longrightarrow> fs (path_join dir subdir) = None \<Longrightarrow>
   scan_entries iter fs dir files ((subdir, name, prefix) # entries) tbl = Inl StopIteration"
  by (simp add: walk_files_def)

lemma scan_entries_step:
  assumes iter: "\<forall>xs. set (iter xs) = set xs"
    and dist: "distinct (map fst tbl)"
    and root: "fs dir = Some files"
    and comp: "compile_regex prefix ''c'' \<noteq> None"
    and ok: "\<not> (subdir \<noteq> ''.'' \<and> fs (path_join dir subdir) = None)"
  shows "\<exists>tbl1. scan_entries iter fs dir files ((subdir, name, prefix) # entries) tbl
                 = scan_entries iter fs dir files entries tbl1
           \<and> distinct (map fst tbl1)
           \<and> fst ` set tbl1 = fst ` set tbl \<union> found_versions fs dir subdir prefix
           \<and> (\<forall>k. drivers_of tbl1 k
                    = (if k \<in> found_versions fs dir subdir prefix
                       then insert name (drivers_of tbl k) else drivers_of tbl k))"
proof -
  obtain tmp where tmp: "(if subdir = ''.'' then Inr files else walk_files fs (path_join dir subdir)) = Inr tmp"
    and tmp': "walk_files fs (if subdir = ''.'' then dir else path_join dir subdir) = Inr tmp"
    using ok root by (cases "subdir = ''.''") (auto simp: walk_files_def)
  obtain rex where "compile_regex prefix ''c'' = Some rex"
    using comp by blast
  then obtain vs where vs: "filter_versions tmp prefix ''c'' = Inr vs"
    by (simp add: filter_versions_def)
  have found: "found_versions fs dir subdir prefix = set (iter vs)"
    unfolding found_versions_def tmp' using vs iter by simp
  obtain tbl1 where 1: "add_driver (iter vs) name tbl = Inr tbl1"
    and d1: "distinct (map fst tbl1)"
    and k1: "fst ` set tbl1 = set (iter vs) \<union> fst ` set tbl"
    and m1: "\<forall>k. drivers_of tbl1 k
                    = (if k \<in> set (iter vs) then insert name (drivers_of tbl k) else drivers_of tbl k)"
    using add_driver_result [OF dist] by blast
  have "scan_entries iter fs dir files ((subdir, name, prefix) # entries) tbl
                 = scan_entries iter fs dir files entries tbl1"
    using tmp vs 1 by simp
  moreover have "fst ` set tbl1 = fst ` set tbl \<union> found_versions fs dir subdir prefix"
    using k1 found by auto
  ultimately show ?thesis using d1 m1 found by auto
qed

lemma scan_entries_succeeds:
  assumes iter: "\<forall>xs. set (iter xs) = set xs"
    and root: "fs dir = Some files"
  shows "distinct (map fst tbl) \<Longrightarrow>
    \<forall>(subdir, name, prefix)\<in>set entries. compile_regex prefix ''c'' \<noteq> None \<Longrightarrow>
    \<not> (\<exists>(subdir, name, prefix)\<in>set entries. subdir \<noteq> ''.'' \<and> fs (path_join dir subdir) = None) \<Longrightarrow>
    \<exists>tbl'. scan_entries iter fs dir files entries tbl = Inr tbl'
       \<and> distinct (map fst tbl')
       \<and> fst ` set tbl' = fst ` set tbl
            \<union> (\<Union>(subdir, name, prefix)\<in>set entries. found_versions fs dir subdir prefix)
       \<and> (\<forall>k. drivers_of tbl' k = drivers_of tbl k
            \<union> {name. \<exists>subdir prefix. (subdir, name, prefix) \<in> set entries
                        \<and> k \<in> found_versions fs dir subdir prefix})"
proof (induction entries arbitrary: tbl)
  case Nil
  then show ?case by simp
next
  case (Cons entry entries)
  obtain subdir name prefix where e: "entry = (subdir, name, prefix)"
    by (cases entry) auto
  have ok: "\<not> (subdir \<noteq> ''.'' \<and> fs (path_join dir subdir) = None)"
    using Cons.prems(3) e by auto
  have comp: "compile_regex prefix ''c'' \<noteq> None"
    using Cons.prems(2) e by auto
  obtain tbl1 where 1: "scan_entries iter fs dir files ((subdir, name, prefix) # entries) tbl
                 = scan_entries iter fs dir files entries tbl1"
    and d1: "distinct (map fst tbl1)"
    and k1: "fst ` set tbl1 = fst ` set tbl \<union> found_versions fs dir subdir prefix"
    and m1: "\<forall>k. drivers_of tbl1 k
                    = (if k \<in> found_versions fs dir subdir prefix
                       then insert name (drivers_of tbl k) else drivers_of tbl k)"
    using scan_entries_step [OF iter Cons.prems(1) root comp ok, where name = name and entries = entries] by (elim exE conjE)
  have c2: "\<forall>(subdir, name, prefix)\<in>set entries. compile_regex prefix ''c'' \<noteq> None"
    using Cons.prems(2) by auto
  have ok2: "\<not> (\<exists>(subdir, name, prefix)\<in>set entries. subdir \<noteq> ''.'' \<and> fs (path_join dir subdir) = None)"
    using Cons.prems(3) by auto
  obtain tbl' where 2: "scan_entries iter fs dir files entries tbl1 = Inr tbl'"
    and d2: "distinct (map fst tbl')"
    and k2: "fst ` set tbl' = fst ` set tbl1
            \<union> (\<Union>(subdir, name, prefix)\<in>set entries. found_versions fs dir subdir prefix)"
    and m2: "\<forall>k. drivers_of tbl' k = drivers_of tbl1 k
            \<union> {name. \<exists>subdir prefix. (subdir, name, prefix) \<in> set entries
                        \<and> k \<in> found_versions fs dir subdir prefix}"
    using Cons.IH [OF d1 c2 ok2] by (elim exE conjE)
  have "scan_entries iter fs dir files (entry # entries) tbl = Inr tbl'"
    unfolding e 1 2 ..
  moreover have "fst ` set tbl' = fst ` set tbl
            \<union> (\<Union>(subdir, name, prefix)\<in>set (entry # entries). found_versions fs dir subdir prefix)"
    unfolding k2 k1 e by auto
  moreover have "\<forall>k. drivers_of tbl' k = drivers_of tbl k
            \<union> {name. \<exists>subdir prefix. (subdir, name, prefix) \<in> set (entry # entries)
                        \<and> k \<in> found_versions fs dir subdir prefix}"
  proof
    fix k
    have "drivers_of tbl1 k \<union> {name. \<exists>subdir prefix. (subdir, name, prefix) \<in> set entries
                        \<and> k \<in> found_versions fs dir subdir prefix}
        = drivers_of tbl k \<union> {name'. \<exists>subdir' prefix'. (subdir', name', prefix') \<in> set ((subdir, name, prefix) # entries)
                        \<and> k \<in> found_versions fs dir subdir' prefix'}"
      using m1 [rule_format, of k] by (cases "k \<in> found_versions fs dir subdir prefix") auto
    then show "drivers_of tbl' k = drivers_of tbl k
            \<union> {name. \<exists>subdir prefix. (subdir, name, prefix) \<in> set (entry # entries)
                        \<and> k \<in> found_versions fs dir subdir prefix}"
      unfolding e using m2 [rule_format, of k] by simp
  qed
  ultimately show ?case using d2 by (intro exI [of _ tbl'] conjI)
qed

lemma add_version_total: "\<exists>tbl'. add_version driver v tbl = Inr tbl'"
proof -
  let ?tbl1 = "if v \<notin> fst ` set tbl then tbl @ [(v, {})] else tbl"
  have "v \<in> fst ` set ?tbl1" by auto
  then obtain s where "map_of ?tbl1 v = Some s"
    by (metis map_of_eq_None_iff not_Some_eq)
  then show ?thesis
    unfolding add_version_def Let_def by simp
qed

lemma add_driver_total: "\<exists>tbl'. add_driver versions driver tbl = Inr tbl'"
proof (induction versions arbitrary: tbl)
  case Nil
  then show ?case by simp
next
  case (Cons v versions)
  obtain tbl1 where "add_version driver v tbl = Inr tbl1"
    using add_version_total by blast
  then show ?case using Cons.IH [of tbl1] by simp
qed

lemma scan_entries_unlistable_entry:
  "\<forall>(subdir, name, prefix)\<in>set entries. compile_regex prefix ''c'' \<noteq> None \<Longrightarrow>
   \<exists>(subdir, name, prefix)\<in>set entries. subdir \<noteq> ''.'' \<and> fs (path_join dir subdir) = None \<Longrightarrow>
   scan_entries iter fs dir files entries tbl = Inl StopIteration"
proof (induction entries arbitrary: tbl)
  case Nil
  then show ?case by simp
next
  case (Cons entry entries)
  obtain subdir name prefix where e: "entry = (subdir, name, prefix)"
    by (cases entry) auto
  show ?case
  proof (cases "subdir \<noteq> ''.'' \<and> fs (path_join dir subdir) = None")
    case True
    then have "subdir \<noteq> ''.''" and "fs (path_join dir subdir) = None" by simp_all
    then show ?thesis unfolding e by (rule scan_entries_unlistable)
  next
    case False
    then obtain tmp where tmp: "(if subdir = ''.'' then Inr files else walk_files fs (path_join dir subdir)) = Inr tmp"
      by (cases "subdir = ''.''") (auto simp: walk_files_def)
    have "compile_regex prefix ''c'' \<noteq> None"
      using Cons.prems(1) e by auto
    then obtain vs where vs: "filter_versions tmp prefix ''c'' = Inr vs"
      by (auto simp: filter_versions_def)
    obtain tbl1 where 1: "add_driver (iter vs) name tbl = Inr tbl1"
      using add_driver_total by blast
    have step: "scan_entries iter fs dir files (entry # entries) tbl
                 = scan_entries iter fs dir files entries tbl1"
      unfolding e using tmp vs 1 by simp
    have "\<exists>(subdir, name, prefix)\<in>set entries. subdir \<noteq> ''.'' \<and> fs (path_join dir subdir) = None"
      using Cons.prems(2) False e by auto
    moreover have "\<forall>(subdir, name, prefix)\<in>set entries. compile_regex prefix ''c'' \<noteq> None"
      using Cons.prems(1) by auto
    ultimately show ?thesis
      unfolding step by (rule Cons.IH [rotated])
  qed
qed


lemma get_all_drivers_unlistable:
  assumes "fs drivers_dir = None
           \<or> (\<exists>(subdir, driver_name, file_prefix)\<in>set DRIVER_MAP.
                 subdir \<noteq> ''.'' \<and> fs (path_join drivers_dir subdir) = None)"
  shows "get_all_drivers iter fs drivers_dir = Inl StopIteration"
proof (cases "fs drivers_dir")
  case None
  then show ?thesis by (simp add: get_all_drivers_def walk_files_def)
next
  case (Some files)
  with assms have "\<exists>(subdir, driver_name, file_prefix)\<in>set DRIVER_MAP.
                 subdir \<noteq> ''.'' \<and> fs (path_join drivers_dir subdir) = None"
    by simp
  then have "scan_entries iter fs drivers_dir files DRIVER_MAP [] = Inl StopIteration"
    by (rule scan_entries_unlistable_entry [OF catalog_prefixes_compile])
  then show ?thesis using Some by (simp add: get_all_drivers_def walk_files_def)
qed

subsection \<open>Cells of the main table\<close>

lemma find_table_row:
  "distinct keys \<Longrightarrow>
   find (\<lambda>row. row \<noteq> [] \<and> hd row = version_label key) (map (table_row d) keys)
     = (if key \<in> set keys then Some (table_row d key) else None)"
proof (induction keys)
  case Nil
  then show ?case by simp
next
  case (Cons k keys)
  have "(hd (table_row d k) = version_label key) = (k = key)"
    using version_label_inj [of k key] by (auto simp: table_row_def)
  moreover have "table_row d k \<noteq> []" by (simp add: table_row_def)
  ultimately show ?case using Cons by auto
qed

lemma table_cell_compute_table:
  assumes "distinct (map fst d)" and "compute_table d = Inr t"
  shows "table_cell t key driver
          = (if key \<in> fst ` set d \<and> driver \<in> set DRIVERS
             then Some (if driver \<in> drivers_of d key then ''X'' else ''-'') else None)"
proof -
  let ?keys = "rev (sort (map fst d))"
  have t: "t = (''Kernel'' # DRIVERS) # map (table_row d) ?keys"
    using assms(2) compute_table_eq [of d] by simp
  have dk: "distinct ?keys" using assms(1) by simp
  have sk: "set ?keys = fst ` set d" by simp
  show ?thesis
    unfolding t table_cell_def using find_table_row [OF dk, of key d]
    by (simp add: sk table_row_def map_of_zip_map)
qed

lemma get_all_drivers_result:
  assumes iter: "\<forall>xs. set (iter xs) = set xs"
    and res: "get_all_drivers iter fs dir = Inr tbl"
  shows "fs dir \<noteq> None"
    and "\<forall>(subdir, name, prefix)\<in>set DRIVER_MAP. subdir \<noteq> ''.'' \<longrightarrow> fs (path_join dir subdir) \<noteq> None"
    and "distinct (map fst tbl)"
    and "fst ` set tbl = (\<Union>(subdir, name, prefix)\<in>set DRIVER_MAP. found_versions fs dir subdir prefix)"
    and "\<forall>k. drivers_of tbl k = {name. \<exists>subdir prefix. (subdir, name, prefix) \<in> set DRIVER_MAP
                        \<and> k \<in> found_versions fs dir subdir prefix}"
proof -
  have ok: "\<not> (fs dir = None
           \<or> (\<exists>(subdir, driver_name, file_prefix)\<in>set DRIVER_MAP.
                 subdir \<noteq> ''.'' \<and> fs (path_join dir subdir) = None))"
  proof
    assume "fs dir = None
           \<or> (\<exists>(subdir, driver_name, file_prefix)\<in>set DRIVER_MAP.
                 subdir \<noteq> ''.'' \<and> fs (path_join dir subdir) = None)"
    then have "get_all_drivers iter fs dir = Inl StopIteration"
      by (rule get_all_drivers_unlistable)
    with res show False by simp
  qed
  then obtain files where root: "fs dir = Some files" by auto
  show "fs dir \<noteq> None" using ok by simp
  show "\<forall>(subdir, name, prefix)\<in>set DRIVER_MAP. subdir \<noteq> ''.'' \<longrightarrow> fs (path_join dir subdir) \<noteq> None"
    using ok by auto
  have nobad: "\<not> (\<exists>(subdir, name, prefix)\<in>set DRIVER_MAP. subdir \<noteq> ''.'' \<and> fs (path_join dir subdir) = None)"
    using ok by simp
  have "distinct (map fst ([] :: driver_table))" by simp
  from scan_entries_succeeds [OF iter root this catalog_prefixes_compile nobad]
  obtain tbl' where 1: "scan_entries iter fs dir files DRIVER_MAP [] = Inr tbl'"
    and d: "distinct (map fst tbl')"
    and k: "fst ` set tbl' = fst ` set ([] :: driver_table)
            \<union> (\<Union>(subdir, name, prefix)\<in>set DRIVER_MAP. found_versions fs dir subdir prefix)"
    and m: "\<forall>k. drivers_of tbl' k = drivers_of [] k
            \<union> {name. \<exists>subdir prefix. (subdir, name, prefix) \<in> set DRIVER_MAP
                        \<and> k \<in> found_versions fs dir subdir prefix}"
    by (elim exE conjE)
  have "tbl' = tbl"
    using res 1 root by (simp add: get_all_drivers_def walk_files_def)
  with d show "distinct (map fst tbl)" by simp
  from k \<open>tbl' = tbl\<close>
  show "fst ` set tbl = (\<Union>(subdir, name, prefix)\<in>set DRIVER_MAP. found_versions fs dir subdir prefix)"
    by simp
  from m \<open>tbl' = tbl\<close>
  show "\<forall>k. drivers_of tbl k = {name. \<exists>subdir prefix. (subdir, name, prefix) \<in> set DRIVER_MAP
                        \<and> k \<in> found_versions fs dir subdir prefix}"
    by (simp add: drivers_of_def)
qed

lemma found_versions_listed:
  assumes "fs (if subdir = ''.'' then dir else path_join dir subdir) = Some tmp_files"
    and "filter_versions tmp_files prefix ''c'' = Inr versions"
  shows "found_versions fs dir subdir prefix = set versions"
  using assms by (simp add: found_versions_def walk_files_def)

lemma r8169_entries:
  "filter (\<lambda>entry. fst (snd entry) = ''r8169'') DRIVER_MAP
     = [(''.'', ''r8169'', ''r8169''), (''r8169'', ''r8169'', ''r8169_main'')]"
  by (simp add: DRIVER_MAP_def)

lemma r8169_found:
  "(\<exists>subdir prefix. (subdir, ''r8169'', prefix) \<in> set DRIVER_MAP \<and> k \<in> found_versions fs dir subdir prefix)
   = (k \<in> found_versions fs dir ''.'' ''r8169'' \<union> found_versions fs dir ''r8169'' ''r8169_main'')"
  by (auto simp: DRIVER_MAP_def)

lemma r8169_column_once: "count_list (''Kernel'' # DRIVERS) ''r8169'' = 1"
  by (simp add: DRIVERS_eq)

lemma r8169_cells:
  assumes iter: "\<forall>xs. set (iter xs) = set xs"
    and res: "get_all_drivers iter fs drivers_dir = Inr dict_data"
  shows "\<exists>files tmp_files versions versions' table_data.
            fs drivers_dir = Some files
          \<and> fs (path_join drivers_dir ''r8169'') = Some tmp_files
          \<and> filter_versions files ''r8169'' ''c'' = Inr versions
          \<and> filter_versions tmp_files ''r8169_main'' ''c'' = Inr versions'
          \<and> compute_table dict_data = Inr table_data
          \<and> count_list (hd table_data) ''r8169'' = 1
          \<and> (\<forall>version. table_cell table_data version ''r8169''
                = (if version \<in> set versions \<union> set versions' then Some ''X''
                   else if version \<in> fst ` set dict_data then Some ''-'' else None))"
proof -
  note r = get_all_drivers_result [OF iter res]
  obtain files where files: "fs drivers_dir = Some files"
    using r(1) by auto
  have "(''r8169'', ''r8169'', ''r8169_main'') \<in> set DRIVER_MAP"
    by (simp add: DRIVER_MAP_def)
  then have "fs (path_join drivers_dir ''r8169'') \<noteq> None"
    using r(2) by fastforce
  then obtain tmp_files where tmp: "fs (path_join drivers_dir ''r8169'') = Some tmp_files"
    by auto
  have "compile_regex ''r8169'' ''c'' \<noteq> None" and "compile_regex ''r8169_main'' ''c'' \<noteq> None"
    by code_simp+
  then obtain versions versions' where vs: "filter_versions files ''r8169'' ''c'' = Inr versions"
    and vs': "filter_versions tmp_files ''r8169_main'' ''c'' = Inr versions'"
    by (auto simp: filter_versions_def)
  have f1: "found_versions fs drivers_dir ''.'' ''r8169'' = set versions"
    using files vs by (intro found_versions_listed) simp_all
  have f2: "found_versions fs drivers_dir ''r8169'' ''r8169_main'' = set versions'"
    using tmp vs' by (intro found_versions_listed) simp_all
  let ?table = "(''Kernel'' # DRIVERS) # map (table_row dict_data) (rev (sort (map fst dict_data)))"
  have t: "compute_table dict_data = Inr ?table" by (rule compute_table_eq)
  have col: "''r8169'' \<in> set DRIVERS" by (simp add: DRIVERS_eq)
  have mem: "(''r8169'' \<in> drivers_of dict_data k) = (k \<in> set versions \<union> set versions')" for k
  proof -
    have "(''r8169'' \<in> drivers_of dict_data k)
        = (\<exists>subdir prefix. (subdir, ''r8169'', prefix) \<in> set DRIVER_MAP
              \<and> k \<in> found_versions fs drivers_dir subdir prefix)"
      using r(5) [rule_format, of k] by blast
    then show ?thesis unfolding r8169_found f1 f2 .
  qed
  have keys: "k \<in> set versions \<union> set versions' \<Longrightarrow> k \<in> fst ` set dict_data" for k
  proof -
    assume "k \<in> set versions \<union> set versions'"
    then have "\<exists>subdir prefix. (subdir, ''r8169'', prefix) \<in> set DRIVER_MAP
        \<and> k \<in> found_versions fs drivers_dir subdir prefix"
      unfolding r8169_found f1 f2 .
    then show ?thesis unfolding r(4) by auto
  qed
  have cells: "\<forall>version. table_cell ?table version ''r8169''
                = (if version \<in> set versions \<union> set versions' then Some ''X''
                   else if version \<in> fst ` set dict_data then Some ''-'' else None)"
    using table_cell_compute_table [OF r(3) t, of _ "''r8169''"] col mem keys by auto
  have cnt: "count_list (hd ?table) ''r8169'' = 1"
    using r8169_column_once by simp
  show ?thesis
    using files tmp vs vs' t cnt cells
    by (intro exI [of _ files] exI [of _ tmp_files] exI [of _ versions] exI [of _ versions']
          exI [of _ ?table] conjI)
qed

subsection \<open>Independence of listing and enumeration order\<close>

lemma found_versions_cong:
  assumes "\<forall>path. rel_option (\<lambda>files1 files2. set files1 = set files2) (fs1 path) (fs2 path)"
  shows "found_versions fs1 dir subdir prefix = found_versions fs2 dir subdir prefix"
proof -
  let ?p = "if subdir = ''.'' then dir else path_join dir subdir"
  have rel: "rel_option (\<lambda>files1 files2. set files1 = set files2) (fs1 ?p) (fs2 ?p)"
    using assms by blast
  show ?thesis
  proof (cases "fs1 ?p")
    case None
    with rel have "fs2 ?p = None" by (cases "fs2 ?p") auto
    with None show ?thesis by (simp add: found_versions_def walk_files_def)
  next
    case (Some files1)
    with rel obtain files2 where 2: "fs2 ?p = Some files2" and eq: "set files1 = set files2"
      by (cases "fs2 ?p") auto
    have "rel_sum (=) (\<lambda>vs vs'. set vs = set vs')
            (filter_versions files1 prefix ''c'') (filter_versions files2 prefix ''c'')"
      using eq by (rule filter_versions_set_cong)
    then have "(case filter_versions files1 prefix ''c'' of Inl e \<Rightarrow> {} | Inr versions \<Rightarrow> set versions)
             = (case filter_versions files2 prefix ''c'' of Inl e \<Rightarrow> {} | Inr versions \<Rightarrow> set versions)"
      by (auto elim: rel_sum.cases)
    then show ?thesis
      unfolding found_versions_def walk_files_def Some 2 by simp
  qed
qed

lemma compute_table_cong:
  assumes "distinct (map fst d1)" and "distinct (map fst d2)"
    and "fst ` set d1 = fst ` set d2"
    and "\<forall>k. drivers_of d1 k = drivers_of d2 k"
  shows "compute_table d1 = compute_table d2"
proof -
  have s: "sort (map fst d) = sorted_list_of_set (fst ` set d)" if "distinct (map fst d)"
    for d :: driver_table
    using sorted_list_of_set_sort_remdups [of "map fst d"] distinct_remdups_id [OF that]
    by simp
  have "sort (map fst d1) = sort (map fst d2)"
    using s [OF assms(1)] s [OF assms(2)] assms(3) by simp
  moreover have "table_row d1 = table_row d2"
    using assms(4) by (auto simp: table_row_def fun_eq_iff)
  ultimately show ?thesis
    by (simp add: compute_table_eq)
qed

lemma get_all_drivers_listable:
  assumes iter: "\<forall>xs. set (iter xs) = set xs"
    and ok: "\<not> (fs dir = None
           \<or> (\<exists>(subdir, driver_name, file_prefix)\<in>set DRIVER_MAP.
                 subdir \<noteq> ''.'' \<and> fs (path_join dir subdir) = None))"
  shows "\<exists>tbl. get_all_drivers iter fs dir = Inr tbl"
proof -
  obtain files where root: "fs dir = Some files" using ok by auto
  have nobad: "\<not> (\<exists>(subdir, name, prefix)\<in>set DRIVER_MAP. subdir \<noteq> ''.'' \<and> fs (path_join dir subdir) = None)"
    using ok by simp
  have "distinct (map fst ([] :: driver_table))" by simp
  from scan_entries_succeeds [OF iter root this catalog_prefixes_compile nobad]
  obtain tbl' where "scan_entries iter fs dir files DRIVER_MAP [] = Inr tbl'"
    by (elim exE conjE)
  then show ?thesis using root by (simp add: get_all_drivers_def walk_files_def)
qed

lemma main_table_cong:
  assumes i1: "\<forall>xs. set (iter1 xs) = set xs"
    and i2: "\<forall>xs. set (iter2 xs) = set xs"
    and fs: "\<forall>path. rel_option (\<lambda>files1 files2. set files1 = set files2) (fs1 path) (fs2 path)"
  shows "main_table iter1 fs1 devices_dir = main_table iter2 fs2 devices_dir"
proof -
  let ?bad = "\<lambda>fs. fs devices_dir = None
           \<or> (\<exists>(subdir, driver_name, file_prefix)\<in>set DRIVER_MAP.
                 subdir \<noteq> ''.'' \<and> fs (path_join devices_dir subdir) = None)"
  have none: "(fs1 p = None) = (fs2 p = None)" for p
    using fs [rule_format, of p] by (cases "fs1 p"; cases "fs2 p") auto
  have bad: "?bad fs1 = ?bad fs2"
    by (simp add: none)
  show ?thesis
  proof (cases "?bad fs1")
    case True
    then have "get_all_drivers iter1 fs1 devices_dir = Inl StopIteration"
      by (rule get_all_drivers_unlistable)
    moreover from True bad have "?bad fs2" by simp
    then have "get_all_drivers iter2 fs2 devices_dir = Inl StopIteration"
      by (rule get_all_drivers_unlistable)
    ultimately show ?thesis by (simp add: main_table_def)
  next
    case False
    have "\<exists>d1. get_all_drivers iter1 fs1 devices_dir = Inr d1"
      using i1 False by (rule get_all_drivers_listable)
    then obtain d1 where 1: "get_all_drivers iter1 fs1 devices_dir = Inr d1" ..
    from False have "\<not> ?bad fs2" unfolding bad .
    with i2 have "\<exists>d2. get_all_drivers iter2 fs2 devices_dir = Inr d2"
      by (rule get_all_drivers_listable)
    then obtain d2 where 2: "get_all_drivers iter2 fs2 devices_dir = Inr d2" ..
    note r1 = get_all_drivers_result [OF i1 1]
    note r2 = get_all_drivers_result [OF i2 2]
    have "found_versions fs1 devices_dir subdir prefix = found_versions fs2 devices_dir subdir prefix"
      for subdir prefix
      using fs by (rule found_versions_cong)
    then have f: "found_versions fs1 devices_dir = found_versions fs2 devices_dir"
      by (intro ext)
    have k: "fst ` set d1 = fst ` set d2"
      unfolding r1(4) r2(4) f ..
    have m: "\<forall>k. drivers_of d1 k = drivers_of d2 k"
      unfolding r1(5) [rule_format] r2(5) [rule_format] f by simp
    have "compute_table d1 = compute_table d2"
      using r1(3) r2(3) k m by (rule compute_table_cong)
    then show ?thesis by (simp add: main_table_def 1 2)
  qed
qed


subsection \<open>Matching\<close>

lemma re_match_from_literals:
  "re_match_from (map Lit p @ items) pos s
     = (if take (length p) s = p then re_match_from items (pos + length p) (drop (length p) s)
        else None)"
proof (induction p arbitrary: pos s)
  case Nil
  then show ?case by simp
next
  case (Cons c p)
  show ?case
  proof (cases s)
    case Nil
    then show ?thesis by simp
  next
    case (Cons x xs)
    then show ?thesis using Cons.IH [of "Suc pos" xs] by simp
  qed
qed

lemma first_some_all_None: "\<forall>x\<in>set xs. x = None \<Longrightarrow> first_some xs = None"
  by (induction xs) auto

lemma first_some_head: "\<forall>y\<in>set xs. y = None \<Longrightarrow> first_some (x # xs) = x"
  by (cases x) (simp_all add: first_some_all_None)

lemma drop_in_digits:
  assumes "n < length (takeWhile is_digit s)"
  shows "\<exists>d rest. drop n s = d # rest \<and> is_digit d"
proof -
  let ?ds = "takeWhile is_digit s"
  have "drop n (?ds @ dropWhile is_digit s)
        = drop n ?ds @ drop (n - length ?ds) (dropWhile is_digit s)"
    by (rule drop_append)
  then have "drop n s = drop n ?ds @ drop (n - length ?ds) (dropWhile is_digit s)"
    unfolding takeWhile_dropWhile_id .
  then have "drop n s = drop n ?ds @ dropWhile is_digit s"
    using assms by simp
  moreover have "drop n ?ds = ?ds ! n # drop (Suc n) ?ds"
    using assms by (simp add: Cons_nth_drop_Suc)
  moreover have "is_digit (?ds ! n)"
    using assms by (metis nth_mem set_takeWhileD)
  ultimately show ?thesis by simp
qed

lemma re_match_from_digits_literal:
  assumes "\<not> is_digit c"
  shows "re_match_from (Digits_Group # Lit c # items) pos s
     = (if takeWhile is_digit s = [] then None
        else map_option ((#) (takeWhile is_digit s))
               (re_match_from (Lit c # items) (pos + length (takeWhile is_digit s))
                  (dropWhile is_digit s)))"
proof (cases "takeWhile is_digit s = []")
  case True
  then show ?thesis by simp
next
  case False
  let ?L = "length (takeWhile is_digit s)"
  let ?attempt = "\<lambda>n. map_option ((#) (take n s))
                  (re_match_from (Lit c # items) (pos + n) (drop n s))"
  have L: "1 \<le> ?L" using False by (cases "takeWhile is_digit s") simp_all
  then have split: "rev [1..<Suc ?L] = ?L # rev [1..<?L]"
    by (simp only: upt_Suc_append rev_append rev.simps append.simps)
  have none: "\<forall>y\<in>set (map ?attempt (rev [1..<?L])). y = None"
  proof
    fix y assume "y \<in> set (map ?attempt (rev [1..<?L]))"
    then obtain n where n: "n < ?L" and y: "y = ?attempt n" by auto
    obtain d rest where "drop n s = d # rest" and "is_digit d"
      using drop_in_digits [OF n] by blast
    then show "y = None" using y assms by auto
  qed
  have "re_match_from (Digits_Group # Lit c # items) pos s
        = first_some (map ?attempt (rev [1..<Suc ?L]))"
    by (rule re_match_from.simps(5))
  also have "\<dots> = first_some (?attempt ?L # map ?attempt (rev [1..<?L]))"
    by (simp only: split list.map)
  also have "\<dots> = ?attempt ?L"
    using none by (rule first_some_head)
  finally have "re_match_from (Digits_Group # Lit c # items) pos s = ?attempt ?L" .
  moreover have "take ?L s = takeWhile is_digit s"
    by (rule takeWhile_eq_take [symmetric])
  moreover have "drop ?L s = dropWhile is_digit s"
    by (rule dropWhile_eq_drop [symmetric])
  ultimately show ?thesis using False by simp
qed

lemma re_match_from_tail:
  "(re_match_from (map Lit lits @ [Eol]) pos s = Some gs)
   = (gs = [] \<and> (\<exists>tail. (tail = [] \<or> tail = [newline]) \<and> s = lits @ tail))"
proof -
  have "(take (length lits) s = lits \<and> (drop (length lits) s = [] \<or> drop (length lits) s = [newline]))
        = (\<exists>tail. (tail = [] \<or> tail = [newline]) \<and> s = lits @ tail)"
    by (metis append_eq_conv_conj)
  then show ?thesis
    unfolding re_match_from_literals by (auto split: if_splits)
qed

lemma re_match_from_digits:
  assumes "\<not> is_digit c"
  shows "(re_match_from (Digits_Group # Lit c # items) pos s = Some gs)
   = (\<exists>ds rest g. ds \<noteq> [] \<and> list_all is_digit ds \<and> s = ds @ c # rest
        \<and> re_match_from items (Suc (pos + length ds)) rest = Some g \<and> gs = ds # g)"
    (is "?lhs = ?rhs")
proof
  assume l: ?lhs
  let ?ds = "takeWhile is_digit s"
  from l have ne: "?ds \<noteq> []"
    unfolding re_match_from_digits_literal [OF assms] by (auto split: if_splits)
  with l obtain g where g: "re_match_from (Lit c # items) (pos + length ?ds) (dropWhile is_digit s) = Some g"
    and gs: "gs = ?ds # g"
    unfolding re_match_from_digits_literal [OF assms] by auto
  from g obtain rest where d: "dropWhile is_digit s = c # rest"
    and r: "re_match_from items (Suc (pos + length ?ds)) rest = Some g"
    by (auto split: list.splits if_splits)
  have "s = ?ds @ c # rest"
    using d takeWhile_dropWhile_id [of is_digit s] by simp
  moreover have "list_all is_digit ?ds"
    by (simp add: list_all_iff) (metis set_takeWhileD)
  ultimately show ?rhs using ne r gs by blast
next
  assume ?rhs
  then obtain ds rest g where ne: "ds \<noteq> []" and dig: "list_all is_digit ds"
    and s: "s = ds @ c # rest"
    and r: "re_match_from items (Suc (pos + length ds)) rest = Some g" and gs: "gs = ds # g"
    by blast
  have all: "\<forall>x\<in>set ds. is_digit x" using dig by (simp add: list_all_iff)
  have t: "takeWhile is_digit s = ds"
    unfolding s using all assms by (rule takeWhile_stop)
  have d: "dropWhile is_digit s = c # rest"
    unfolding s using all assms by (rule dropWhile_stop)
  show ?lhs
    unfolding re_match_from_digits_literal [OF assms] t d using ne r gs by simp
qed

lemma not_digit_chars: "\<not> is_digit CHR ''.''" "\<not> is_digit CHR ''-''"
  by (simp_all add: is_digit_def less_eq_char_def)

lemma re_match_compiled:
  assumes "compile_regex prefix ext = Some rex"
  shows "(re_match rex file = Some groups)
   = (\<exists>major minor tail. groups = [major, minor]
        \<and> major \<noteq> [] \<and> minor \<noteq> [] \<and> list_all is_digit major \<and> list_all is_digit minor
        \<and> (tail = [] \<or> tail = [newline])
        \<and> file = prefix @ ''-'' @ major @ ''.'' @ minor @ ''-ethercat.'' @ ext @ tail)"
    (is "?lhs = ?rhs")
proof -
  let ?lits = "''ethercat.'' @ ext"
  let ?end = "map Lit ?lits @ [Eol]"
  let ?mid = "Digits_Group # Lit CHR ''.'' # Digits_Group # Lit CHR ''-'' # ?end"
  have rex: "rex = Bol # map Lit (prefix @ ''-'') @ ?mid"
    using assms by (simp add: compile_regex_def split: if_splits)
  have 1: "?lhs = (take (length (prefix @ ''-'')) file = prefix @ ''-''
            \<and> re_match_from ?mid (length (prefix @ ''-'')) (drop (length (prefix @ ''-'')) file) = Some groups)"
    unfolding rex re_match_def re_match_from.simps(2) re_match_from_literals
    by (simp split: if_splits)
  have 2: "(re_match_from ?mid pos s = Some groups)
      = (\<exists>major minor tail. groups = [major, minor]
        \<and> major \<noteq> [] \<and> minor \<noteq> [] \<and> list_all is_digit major \<and> list_all is_digit minor
        \<and> (tail = [] \<or> tail = [newline])
        \<and> s = major @ ''.'' @ minor @ ''-ethercat.'' @ ext @ tail)" (is "?l = ?r") for pos s
  proof
    assume ?l
    then obtain major rest g where a: "major \<noteq> []" "list_all is_digit major"
      and s: "s = major @ CHR ''.'' # rest"
      and g: "re_match_from (Digits_Group # Lit CHR ''-'' # ?end) (Suc (pos + length major)) rest = Some g"
      and gs: "groups = major # g"
      unfolding re_match_from_digits [OF not_digit_chars(1)] by blast
    from g obtain minor rest' g' where b: "minor \<noteq> []" "list_all is_digit minor"
      and r: "rest = minor @ CHR ''-'' # rest'"
      and g': "re_match_from ?end (Suc (Suc (pos + length major) + length minor)) rest' = Some g'"
      and gg: "g = minor # g'"
      unfolding re_match_from_digits [OF not_digit_chars(2)] by blast
    from g' obtain tail where t: "tail = [] \<or> tail = [newline]" and r': "rest' = ?lits @ tail"
      and e: "g' = []"
      unfolding re_match_from_tail by blast
    have "groups = [major, minor]" using gs gg e by simp
    moreover have "s = major @ ''.'' @ minor @ ''-ethercat.'' @ ext @ tail"
      using s r r' by simp
    ultimately show ?r using a b t by blast
  next
    assume ?r
    then obtain major minor tail where gs: "groups = [major, minor]"
      and a: "major \<noteq> []" "list_all is_digit major"
      and b: "minor \<noteq> []" "list_all is_digit minor"
      and t: "tail = [] \<or> tail = [newline]"
      and s: "s = major @ ''.'' @ minor @ ''-ethercat.'' @ ext @ tail"
      by blast
    have 1: "re_match_from ?end (Suc (Suc (pos + length major) + length minor)) (?lits @ tail) = Some []"
      unfolding re_match_from_tail using t by blast
    have 2: "re_match_from (Digits_Group # Lit CHR ''-'' # ?end) (Suc (pos + length major))
               (minor @ CHR ''-'' # ?lits @ tail) = Some [minor]"
      unfolding re_match_from_digits [OF not_digit_chars(2)] using b 1 by blast
    have "re_match_from ?mid pos (major @ CHR ''.'' # minor @ CHR ''-'' # ?lits @ tail)
            = Some [major, minor]"
      unfolding re_match_from_digits [OF not_digit_chars(1)] using a 2 by blast
    then show ?l unfolding gs s by simp
  qed
  have 3: "(take (length (prefix @ ''-'')) file = prefix @ ''-''
            \<and> drop (length (prefix @ ''-'')) file = s)
          = (file = prefix @ ''-'' @ s)" for s
    by (metis append_eq_conv_conj append_assoc)
  show ?thesis
    unfolding 1 2 using 3 by (auto simp del: append_assoc)
qed

lemma compiled_pattern_two_groups:
  assumes "compile_regex prefix ext = Some rex" and "re_match rex file = Some groups"
  shows "length groups = 2"
proof -
  obtain major minor where "groups = [major, minor]"
    using assms(2) unfolding re_match_compiled [OF assms(1)] by blast
  then show ?thesis by simp
qed

lemma set_filter_step_exact:
  assumes "compile_regex prefix ext = Some rex"
  shows "set (filter_step rex file [])
         = {v. full_match prefix ext v file
               \<or> (\<exists>name. file = name @ [newline] \<and> full_match prefix ext v name)}"
    (is "?l = ?r")
proof (cases "re_match rex file")
  case None
  have "?r = {}"
  proof (rule ccontr)
    assume "?r \<noteq> {}"
    then obtain v where "full_match prefix ext v file
               \<or> (\<exists>name. file = name @ [newline] \<and> full_match prefix ext v name)"
      by blast
    then obtain major minor tail where "major \<noteq> []" "minor \<noteq> []"
        "list_all is_digit major" "list_all is_digit minor" "tail = [] \<or> tail = [newline]"
        "file = prefix @ ''-'' @ major @ ''.'' @ minor @ ''-ethercat.'' @ ext @ tail"
      unfolding full_match_def by force
    then have "re_match rex file = Some [major, minor]"
      unfolding re_match_compiled [OF assms] by blast
    with None show False by simp
  qed
  with None show ?thesis by (simp add: filter_step_def)
next
  case (Some groups)
  then obtain major minor tail where g: "groups = [major, minor]"
    and c: "major \<noteq> []" "minor \<noteq> []" "list_all is_digit major" "list_all is_digit minor"
    and t: "tail = [] \<or> tail = [newline]"
    and f: "file = prefix @ ''-'' @ major @ ''.'' @ minor @ ''-ethercat.'' @ ext @ tail"
    unfolding re_match_compiled [OF assms] by blast
  have l: "?l = {(py_int major, py_int minor)}"
    using Some g by (simp add: filter_step_def set_add_def)
  have in_r: "(py_int major, py_int minor) \<in> ?r"
  proof (cases "tail = []")
    case True
    then have "full_match prefix ext (py_int major, py_int minor) file"
      unfolding full_match_def using c f by auto
    then show ?thesis by simp
  next
    case False
    with t have "file = (prefix @ ''-'' @ major @ ''.'' @ minor @ ''-ethercat.'' @ ext) @ [newline]"
      using f by simp
    moreover have "full_match prefix ext (py_int major, py_int minor)
        (prefix @ ''-'' @ major @ ''.'' @ minor @ ''-ethercat.'' @ ext)"
      unfolding full_match_def using c by blast
    ultimately show ?thesis by blast
  qed
  have "v = (py_int major, py_int minor)" if "v \<in> ?r" for v
  proof -
    from that obtain major' minor' tail' where v: "v = (py_int major', py_int minor')"
      and c': "major' \<noteq> []" "minor' \<noteq> []" "list_all is_digit major'" "list_all is_digit minor'"
        "tail' = [] \<or> tail' = [newline]"
        "file = prefix @ ''-'' @ major' @ ''.'' @ minor' @ ''-ethercat.'' @ ext @ tail'"
      unfolding full_match_def by force
    then have "re_match rex file = Some [major', minor']"
      unfolding re_match_compiled [OF assms] by blast
    with Some g have "major' = major" "minor' = minor" by simp_all
    with v show ?thesis by simp
  qed
  with in_r have "?r = {(py_int major, py_int minor)}" by blast
  with l show ?thesis by simp
qed

lemma filter_versions_exact:
  assumes "\<not> list_ex regex_special (prefix @ ext)"
  shows "\<exists>versions. filter_versions files prefix ext = Inr versions
     \<and> set versions
        = {v. \<exists>file\<in>set files. full_match prefix ext v file
               \<or> (\<exists>name. file = name @ [newline] \<and> full_match prefix ext v name)}"
proof -
  obtain rex where rex: "compile_regex prefix ext = Some rex"
    using assms by (simp add: compile_regex_def)
  have "filter_versions files prefix ext = Inr (fold (filter_step rex) files [])"
    using rex by (simp add: filter_versions_def)
  moreover have "set (fold (filter_step rex) files [])
        = {v. \<exists>file\<in>set files. full_match prefix ext v file
               \<or> (\<exists>name. file = name @ [newline] \<and> full_match prefix ext v name)}"
    unfolding set_fold_filter_step set_filter_step_exact [OF rex] by auto
  ultimately show ?thesis by blast
qed

lemma newline_name_no_full_match:
  "\<not> full_match prefix ''c'' v (name @ [newline])"
proof
  assume "full_match prefix ''c'' v (name @ [newline])"
  then obtain major minor where "name @ [newline] = prefix @ ''-'' @ major @ ''.'' @ minor @ ''-ethercat.'' @ ''c''"
    unfolding full_match_def by blast
  then have "last (name @ [newline]) = last (prefix @ ''-'' @ major @ ''.'' @ minor @ ''-ethercat.'' @ ''c'')"
    by simp
  then show False by (simp add: newline_def)
qed

lemma catalog_prefix_plain:
  "(subdir, name, prefix) \<in> set DRIVER_MAP \<Longrightarrow> \<not> list_ex regex_special (prefix @ ''c'')"
  using catalog_prefixes_compile by (fastforce simp: compile_regex_def split: if_splits)

lemma found_versions_exact:
  assumes "(subdir, name, prefix) \<in> set DRIVER_MAP"
  shows "found_versions fs dir subdir prefix
         = {v. \<exists>files. fs (if subdir = ''.'' then dir else path_join dir subdir) = Some files
               \<and> (\<exists>file\<in>set files. full_match prefix ''c'' v file
                     \<or> (\<exists>name. file = name @ [newline] \<and> full_match prefix ''c'' v name))}"
proof (cases "fs (if subdir = ''.'' then dir else path_join dir subdir)")
  case None
  then show ?thesis by (simp add: found_versions_def walk_files_def)
next
  case (Some files)
  obtain versions where "filter_versions files prefix ''c'' = Inr versions"
    and "set versions
        = {v. \<exists>file\<in>set files. full_match prefix ''c'' v file
               \<or> (\<exists>name. file = name @ [newline] \<and> full_match prefix ''c'' v name)}"
    using filter_versions_exact [OF catalog_prefix_plain [OF assms]] by blast
  then show ?thesis
    unfolding found_versions_def walk_files_def Some by simp
qed

lemma cell_X_exact:
  assumes iter: "\<forall>xs. set (iter xs) = set xs"
    and res: "get_all_drivers iter fs dir = Inr dict_data"
    and t: "compute_table dict_data = Inr table_data"
  shows "(table_cell table_data v driver = Some ''X'')
       = (\<exists>subdir prefix files.
            (subdir, driver, prefix) \<in> set DRIVER_MAP
          \<and> fs (if subdir = ''.'' then dir else path_join dir subdir) = Some files
          \<and> (\<exists>file\<in>set files. full_match prefix ''c'' v file
                \<or> (\<exists>name. file = name @ [newline] \<and> full_match prefix ''c'' v name)))"
    (is "?l = ?r")
proof -
  note r = get_all_drivers_result [OF iter res]
  have found: "?r = (\<exists>subdir prefix. (subdir, driver, prefix) \<in> set DRIVER_MAP
                      \<and> v \<in> found_versions fs dir subdir prefix)"
  proof
    assume ?r
    then obtain subdir prefix files where e: "(subdir, driver, prefix) \<in> set DRIVER_MAP"
      and f: "fs (if subdir = ''.'' then dir else path_join dir subdir) = Some files
          \<and> (\<exists>file\<in>set files. full_match prefix ''c'' v file
                \<or> (\<exists>name. file = name @ [newline] \<and> full_match prefix ''c'' v name))"
      by blast
    from f have "v \<in> found_versions fs dir subdir prefix"
      unfolding found_versions_exact [OF e] by blast
    with e show "\<exists>subdir prefix. (subdir, driver, prefix) \<in> set DRIVER_MAP
                      \<and> v \<in> found_versions fs dir subdir prefix"
      by blast
  next
    assume "\<exists>subdir prefix. (subdir, driver, prefix) \<in> set DRIVER_MAP
                      \<and> v \<in> found_versions fs dir subdir prefix"
    then obtain subdir prefix where e: "(subdir, driver, prefix) \<in> set DRIVER_MAP"
      and f: "v \<in> found_versions fs dir subdir prefix"
      by blast
    from f obtain files where "fs (if subdir = ''.'' then dir else path_join dir subdir) = Some files
          \<and> (\<exists>file\<in>set files. full_match prefix ''c'' v file
                \<or> (\<exists>name. file = name @ [newline] \<and> full_match prefix ''c'' v name))"
      unfolding found_versions_exact [OF e] by blast
    with e show ?r by blast
  qed
  have cell: "table_cell table_data v driver
          = (if v \<in> fst ` set dict_data \<and> driver \<in> set DRIVERS
             then Some (if driver \<in> drivers_of dict_data v then ''X'' else ''-'') else None)"
    using r(3) t by (rule table_cell_compute_table)
  have mem: "(driver \<in> drivers_of dict_data v)
      = (\<exists>subdir prefix. (subdir, driver, prefix) \<in> set DRIVER_MAP
                      \<and> v \<in> found_versions fs dir subdir prefix)"
    using r(5) [rule_format, of v] by blast
  show ?thesis
  proof
    assume ?l
    then have "driver \<in> drivers_of dict_data v"
      unfolding cell by (auto split: if_splits)
    then show ?r unfolding found mem .
  next
    assume ?r
    then obtain subdir prefix where e: "(subdir, driver, prefix) \<in> set DRIVER_MAP"
      and f: "v \<in> found_versions fs dir subdir prefix"
      unfolding found by blast
    have "v \<in> fst ` set dict_data"
      unfolding r(4) using e f by blast
    moreover have "driver \<in> set DRIVERS"
      unfolding DRIVERS_set using e by force
    moreover have "driver \<in> drivers_of dict_data v"
      unfolding mem using e f by blast
    ultimately show ?l unfolding cell by simp
  qed
qed


section \<open>The claims\<close>

text \<open>
  C2. Whatever the dict holds, also when it is empty, the first row of the computed
  table is the caption \<open>Kernel\<close> followed by \<open>DRIVERS\<close>, and \<open>DRIVERS\<close> is the list of the ten
  driver names of the catalog, each once, in strictly ascending lexicographic order.
  The dict does not occur in the header, so the columns do not depend on the files found.
\<close>

theorem header_is_sorted_driver_names:
  "(\<exists>rows. compute_table d = Inr ((''Kernel'' # DRIVERS) # rows))
   \<and> compute_table [] = Inr [''Kernel'' # DRIVERS]
   \<and> DRIVERS = [''8139too'', ''bcmgenet'', ''dwmac-intel'', ''e100'', ''e1000'',
                 ''e1000e'', ''igb'', ''igc'', ''r8169'', ''stmmac-pci'']
   \<and> set DRIVERS = (\<lambda>x. fst (snd x)) ` set DRIVER_MAP
   \<and> sorted_wrt (<) DRIVERS"
proof -
  have "compute_table [] = Inr [''Kernel'' # DRIVERS]"
    using compute_table_eq [of "[]"] by simp
  then show ?thesis
    using compute_table_eq [of d] DRIVERS_eq DRIVERS_set DRIVERS_sorted by blast
qed

text \<open>
  C3. For a dict (keys pairwise different), the first cells of the data rows are the
  labels of the keys of the dict taken in strictly descending order, where
  \<open>(major, minor)\<close> pairs are compared lexicographically. A dict with the keys \<open>(6,1)\<close>,
  \<open>(5,15)\<close> and \<open>(6,0)\<close> gives the rows \<open>6.1\<close>, \<open>6.0\<close>, \<open>5.15\<close> in this order.
\<close>

theorem rows_strictly_descending:
  assumes "distinct (map fst d)"
  shows "\<exists>header rows keys. compute_table d = Inr (header # rows)
           \<and> map hd rows = map version_label keys
           \<and> set keys = fst ` set d
           \<and> sorted_wrt (\<lambda>a b. fst b < fst a \<or> fst b = fst a \<and> snd b < snd a) keys
           \<and> (fst ` set d = {(6, 1), (5, 15), (6, 0)}
                \<longrightarrow> map hd rows = [''6.1 '', ''6.0 '', ''5.15''])"
proof -
  let ?keys = "rev (sort (map fst d))"
  have labels: "map hd (map (table_row d) ?keys) = map version_label ?keys"
    by (simp add: table_row_def comp_def)
  have ex: "fst ` set d = {(6, 1), (5, 15), (6, 0)}
      \<longrightarrow> map hd (map (table_row d) ?keys) = [''6.1 '', ''6.0 '', ''5.15'']"
    unfolding labels using example_keys [OF assms] by (simp add: label_examples)
  have keys: "set ?keys = fst ` set d" by simp
  show ?thesis
    using compute_table_eq [of d] labels keys keys_descending [OF assms] ex
    by (intro exI [of _ "''Kernel'' # DRIVERS"] exI [of _ "map (table_row d) ?keys"]
          exI [of _ ?keys] conjI)
qed

theorem rows_strictly_descending_witness:
  "distinct (map fst ([((6, 1), {''igb''}), ((5, 15), {''e100''}), ((6, 0), {})] :: driver_table))
   \<and> (\<exists>header rows. compute_table [((6, 1), {''igb''}), ((5, 15), {''e100''}), ((6, 0), {})]
                        = Inr (header # rows)
         \<and> map hd rows = [''6.1 '', ''6.0 '', ''5.15''])"
proof -
  let ?d = "[((6, 1), {''igb''}), ((5, 15), {''e100''}), ((6, 0), {})] :: driver_table"
  have h: "distinct (map fst ?d)" by simp
  have k: "fst ` set ?d = {(6, 1), (5, 15), (6, 0)}" by simp
  obtain header rows where t: "compute_table ?d = Inr (header # rows)"
    and e: "fst ` set ?d = {(6, 1), (5, 15), (6, 0)} \<longrightarrow> map hd rows = [''6.1 '', ''6.0 '', ''5.15'']"
    using rows_strictly_descending [OF h] by (elim exE conjE)
  from e k have "map hd rows = [''6.1 '', ''6.0 '', ''5.15'']" by (rule mp)
  with t have "\<exists>header rows. compute_table ?d = Inr (header # rows)
         \<and> map hd rows = [''6.1 '', ''6.0 '', ''5.15'']"
    by (intro exI conjI)
  with h show ?thesis by (rule conjI)
qed

text \<open>
  C5. The first cell of each data row is the label of its key, and the label of
  \<open>(major, minor)\<close> is the decimal text of \<open>major\<close>, a dot, and the decimal text of
  \<open>minor\<close> filled with spaces to a width of at least two characters. The text stands to
  the left of its field and the spaces follow it, as in the claim's own example:
  \<open>(6,1)\<close> gives \<open>6.1\<close> with one space after it, and \<open>(5,15)\<close> gives \<open>5.15\<close>.
\<close>

theorem version_label_format:
  "(\<exists>header rows. compute_table d = Inr (header # rows)
       \<and> map hd rows = map version_label (rev (sort (map fst d))))
   \<and> version_label (major, minor)
       = py_str major @ ''.'' @ py_str minor @ replicate (2 - length (py_str minor)) CHR '' ''
   \<and> 2 \<le> length (py_str minor @ replicate (2 - length (py_str minor)) CHR '' '')
   \<and> version_label (6, 1) = ''6.1 ''
   \<and> version_label (5, 15) = ''5.15''"
proof -
  have "map hd (map (table_row d) (rev (sort (map fst d)))) = map version_label (rev (sort (map fst d)))"
    by (simp add: table_row_def comp_def)
  then have "\<exists>header rows. compute_table d = Inr (header # rows)
       \<and> map hd rows = map version_label (rev (sort (map fst d)))"
    using compute_table_eq [of d] by blast
  moreover have "version_label (major, minor)
       = py_str major @ ''.'' @ py_str minor @ replicate (2 - length (py_str minor)) CHR '' ''"
    by (simp add: version_label_def format_left_def)
  moreover have "2 \<le> length (py_str minor @ replicate (2 - length (py_str minor)) CHR '' '')"
    by simp
  ultimately show ?thesis using label_examples by blast
qed

text \<open>
  C9. In the table computed from a dict, every data row is as long as the header,
  which has one cell more than there are different driver names in the catalog; the
  cells after the label are computed from the header's driver columns in the header's
  order; and every key of the dict labels exactly one data row (no other version labels
  any row).
\<close>

theorem rows_match_header:
  assumes "distinct (map fst d)"
  shows "\<exists>header rows. compute_table d = Inr (header # rows)
           \<and> length header = 1 + card ((\<lambda>x. fst (snd x)) ` set DRIVER_MAP)
           \<and> (\<forall>row\<in>set rows. length row = length header
                 \<and> (\<exists>key\<in>fst ` set d. hd row = version_label key
                       \<and> tl row = map (\<lambda>driver. if driver \<in> drivers_of d key then ''X'' else ''-'')
                                      (tl header)))
           \<and> (\<forall>key. length (filter (\<lambda>row. hd row = version_label key) rows)
                       = (if key \<in> fst ` set d then 1 else 0))"
proof -
  let ?keys = "rev (sort (map fst d))"
  let ?header = "''Kernel'' # DRIVERS"
  let ?rows = "map (table_row d) ?keys"
  have 1: "length ?header = 1 + card ((\<lambda>x. fst (snd x)) ` set DRIVER_MAP)"
    by (simp add: card_driver_names)
  have 2: "\<forall>row\<in>set ?rows. length row = length ?header
                 \<and> (\<exists>key\<in>fst ` set d. hd row = version_label key
                       \<and> tl row = map (\<lambda>driver. if driver \<in> drivers_of d key then ''X'' else ''-'')
                                      (tl ?header))"
    by (auto simp: table_row_def)
  have "distinct ?keys" using assms by simp
  then have 3: "\<forall>key. length (filter (\<lambda>row. hd row = version_label key) ?rows)
                       = (if key \<in> fst ` set d then 1 else 0)"
    using count_label [of ?keys _ d] by simp
  show ?thesis
    using compute_table_eq [of d] 1 2 3 by blast
qed

theorem rows_match_header_witness:
  "distinct (map fst ([((6, 1), {''igb''}), ((5, 15), {''e100''})] :: driver_table))
   \<and> (\<exists>header rows. compute_table [((6, 1), {''igb''}), ((5, 15), {''e100''})] = Inr (header # rows)
         \<and> length header = 1 + card ((\<lambda>x. fst (snd x)) ` set DRIVER_MAP)
         \<and> (\<forall>row\<in>set rows. length row = length header)
         \<and> length (filter (\<lambda>row. hd row = version_label (6, 1)) rows) = 1)"
proof -
  let ?d = "[((6, 1), {''igb''}), ((5, 15), {''e100''})] :: driver_table"
  have h: "distinct (map fst ?d)" by simp
  obtain header rows where t: "compute_table ?d = Inr (header # rows)"
    and l: "length header = 1 + card ((\<lambda>x. fst (snd x)) ` set DRIVER_MAP)"
    and r: "\<forall>row\<in>set rows. length row = length header
                 \<and> (\<exists>key\<in>fst ` set ?d. hd row = version_label key
                       \<and> tl row = map (\<lambda>driver. if driver \<in> drivers_of ?d key then ''X'' else ''-'')
                                      (tl header))"
    and c: "\<forall>key. length (filter (\<lambda>row. hd row = version_label key) rows)
                       = (if key \<in> fst ` set ?d then 1 else 0)"
    using rows_match_header [OF h] by (elim exE conjE)
  from c have "length (filter (\<lambda>row. hd row = version_label (6, 1)) rows) = 1"
    by simp
  with t l r have "\<exists>header rows. compute_table ?d = Inr (header # rows)
         \<and> length header = 1 + card ((\<lambda>x. fst (snd x)) ` set DRIVER_MAP)
         \<and> (\<forall>row\<in>set rows. length row = length header)
         \<and> length (filter (\<lambda>row. hd row = version_label (6, 1)) rows) = 1"
    by (intro exI [of _ header] exI [of _ rows] conjI) auto
  with h show ?thesis by (rule conjI)
qed

text \<open>
  C6. For a table whose header and data rows each have at least one cell,
  \<open>dump_markdown\<close> returns a text (no error). The one width \<open>W\<close> used in it is the greatest
  length of a cell of the header (the data rows do not occur in it); the text is the
  header line, the separator line and one line per data row, every cell formatted to
  width \<open>W\<close>; a formatted cell is the cell itself with spaces added up to length \<open>W\<close>, and
  a cell longer than \<open>W\<close> is written unchanged.
\<close>

theorem markdown_width_from_header:
  assumes "header \<noteq> []" and "[] \<notin> set rows"
  shows "\<exists>W. W = Max (insert 0 (length ` set header))
     \<and> dump_markdown (header # rows)
         = Inr (''| '' @ format_left (hd header) W @ '' ''
                @ concat (map (\<lambda>cell. ''| '' @ format_center cell W @ '' '') (tl header))
                @ ''|'' @ [newline]
                @ ''|-'' @ replicate W CHR ''-'' @ '':|''
                @ concat (replicate (length header - 1) ('':'' @ replicate W CHR ''-'' @ '':|''))
                @ concat (map (\<lambda>row. [newline] @ ''| '' @ format_right (hd row) W @ '' ''
                                 @ concat (map (\<lambda>cell. ''| '' @ format_center cell W @ '' '') (tl row))
                                 @ ''|'') rows))
     \<and> (\<forall>cell. length (format_left cell W) = max W (length cell)
             \<and> length (format_right cell W) = max W (length cell)
             \<and> length (format_center cell W) = max W (length cell)
             \<and> (\<exists>r. format_left cell W = cell @ replicate r CHR '' '')
             \<and> (\<exists>l. format_right cell W = replicate l CHR '' '' @ cell)
             \<and> (\<exists>l r. format_center cell W = replicate l CHR '' '' @ cell @ replicate r CHR '' '')
             \<and> (W < length cell \<longrightarrow> format_left cell W = cell \<and> format_right cell W = cell
                                      \<and> format_center cell W = cell))"
proof -
  let ?W = "Max (insert 0 (length ` set header))"
  have w: "get_max_width header = ?W" by (rule get_max_width_Max)
  have rows: "\<forall>row\<in>set rows. row \<noteq> []" using assms(2) by auto
  have out: "dump_markdown (header # rows)
         = Inr (''| '' @ format_left (hd header) ?W @ '' ''
                @ concat (map (\<lambda>cell. ''| '' @ format_center cell ?W @ '' '') (tl header))
                @ ''|'' @ [newline]
                @ ''|-'' @ replicate ?W CHR ''-'' @ '':|''
                @ concat (replicate (length header - 1) ('':'' @ replicate ?W CHR ''-'' @ '':|''))
                @ concat (map (\<lambda>row. [newline] @ ''| '' @ format_right (hd row) ?W @ '' ''
                                 @ concat (map (\<lambda>cell. ''| '' @ format_center cell ?W @ '' '') (tl row))
                                 @ ''|'') rows))"
    using dump_markdown_eq [OF assms(1) rows]
    unfolding w cell_fmt_left_def [abs_def] cell_fmt_right_def [abs_def] cell_fmt_center_def [abs_def]
    by simp
  have cells: "\<forall>cell. length (format_left cell ?W) = max ?W (length cell)
             \<and> length (format_right cell ?W) = max ?W (length cell)
             \<and> length (format_center cell ?W) = max ?W (length cell)
             \<and> (\<exists>r. format_left cell ?W = cell @ replicate r CHR '' '')
             \<and> (\<exists>l. format_right cell ?W = replicate l CHR '' '' @ cell)
             \<and> (\<exists>l r. format_center cell ?W = replicate l CHR '' '' @ cell @ replicate r CHR '' '')
             \<and> (?W < length cell \<longrightarrow> format_left cell ?W = cell \<and> format_right cell ?W = cell
                                      \<and> format_center cell ?W = cell)"
    using format_lengths format_padding format_long by (simp add: less_imp_le)
  from out cells show ?thesis
    by (intro exI [of _ ?W] conjI refl)
qed

theorem markdown_width_from_header_witness:
  "[''Kernel'', ''e100''] \<noteq> []
   \<and> [] \<notin> set [[''5.15'', ''X''], [''100.100'', ''-'']]
   \<and> (\<exists>W. W = 6
        \<and> dump_markdown [[''Kernel'', ''e100''], [''5.15'', ''X''], [''100.100'', ''-'']]
            = Inr (''| Kernel |  e100  |'' @ [newline]
                   @ ''|-------:|:------:|'' @ [newline]
                   @ ''|   5.15 |   X    |'' @ [newline]
                   @ ''| 100.100 |   -    |'')
        \<and> format_right ''100.100'' W = ''100.100'')"
proof -
  let ?header = "[''Kernel'', ''e100'']"
  let ?rows = "[[''5.15'', ''X''], [''100.100'', ''-'']]"
  have h: "?header \<noteq> []" by simp
  have r: "[] \<notin> set ?rows" by simp
  obtain W where w: "W = Max (insert 0 (length ` set ?header))"
    and out: "dump_markdown (?header # ?rows)
         = Inr (''| '' @ format_left (hd ?header) W @ '' ''
                @ concat (map (\<lambda>cell. ''| '' @ format_center cell W @ '' '') (tl ?header))
                @ ''|'' @ [newline]
                @ ''|-'' @ replicate W CHR ''-'' @ '':|''
                @ concat (replicate (length ?header - 1) ('':'' @ replicate W CHR ''-'' @ '':|''))
                @ concat (map (\<lambda>row. [newline] @ ''| '' @ format_right (hd row) W @ '' ''
                                 @ concat (map (\<lambda>cell. ''| '' @ format_center cell W @ '' '') (tl row))
                                 @ ''|'') ?rows))"
    using markdown_width_from_header [OF h r] by (elim exE conjE)
  have w6: "W = 6" unfolding w by simp
  have "dump_markdown (?header # ?rows)
            = Inr (''| Kernel |  e100  |'' @ [newline]
                   @ ''|-------:|:------:|'' @ [newline]
                   @ ''|   5.15 |   X    |'' @ [newline]
                   @ ''| 100.100 |   -    |'')"
    unfolding out w6 by code_simp
  moreover have "format_right ''100.100'' W = ''100.100''"
    unfolding w6 by (simp add: format_right_def)
  ultimately show ?thesis using h r w6 by (intro conjI exI [of _ W])
qed

text \<open>
  C8. When the root directory cannot be listed, or the directory of some entry of the
  catalog whose subdirectory is not \<open>.\<close> cannot be listed, \<open>get_all_drivers\<close> ends with the
  exception \<open>StopIteration\<close>, which nothing catches: no dict is returned, whatever the
  other directories hold.
\<close>

theorem unlistable_directory_is_fatal:
  assumes "fs drivers_dir = None
           \<or> (\<exists>(subdir, driver_name, file_prefix)\<in>set DRIVER_MAP.
                 subdir \<noteq> ''.'' \<and> fs (path_join drivers_dir subdir) = None)"
  shows "get_all_drivers iter fs drivers_dir = Inl StopIteration"
  using assms by (rule get_all_drivers_unlistable)

theorem unlistable_directory_is_fatal_witness:
  "((\<lambda>p. if p = ''dev/igc'' then None else Some ([] :: string list)) ''dev'' = None
     \<or> (\<exists>(subdir, driver_name, file_prefix)\<in>set DRIVER_MAP.
           subdir \<noteq> ''.''
           \<and> (\<lambda>p. if p = ''dev/igc'' then None else Some ([] :: string list)) (path_join ''dev'' subdir) = None))
   \<and> get_all_drivers id (\<lambda>p. if p = ''dev/igc'' then None else Some ([] :: string list)) ''dev'' = Inl StopIteration"
proof -
  let ?fs = "\<lambda>p. if p = ''dev/igc'' then None else Some ([] :: string list)"
  have "(''igc'', ''igc'', ''igc_main'') \<in> set DRIVER_MAP"
    by (simp add: DRIVER_MAP_def)
  moreover have "''igc'' \<noteq> ''.'' \<and> ?fs (path_join ''dev'' ''igc'') = None"
    by (simp add: path_join_def)
  ultimately have h: "?fs ''dev'' = None
     \<or> (\<exists>(subdir, driver_name, file_prefix)\<in>set DRIVER_MAP.
           subdir \<noteq> ''.'' \<and> ?fs (path_join ''dev'' subdir) = None)"
    by blast
  have "get_all_drivers id ?fs ''dev'' = Inl StopIteration"
    using h by (rule unlistable_directory_is_fatal)
  with h show ?thesis by (intro conjI)
qed

text \<open>
  C7. The table of the main program is a function of the set of file names of each
  listed directory alone. Two runs over directories that hold the same names give the
  same outcome (the same table cell for cell, or the same exception), also when the
  operating system lists the names in another order and the interpreter enumerates the
  sets of versions in another order. Two runs over the same listings are the special
  case \<open>fs1 = fs2\<close>, \<open>iter1 = iter2\<close>.
\<close>

theorem scan_is_deterministic:
  assumes "\<forall>xs. set (iter1 xs) = set xs"
    and "\<forall>xs. set (iter2 xs) = set xs"
    and "\<forall>path. rel_option (\<lambda>files1 files2. set files1 = set files2) (fs1 path) (fs2 path)"
  shows "main_table iter1 fs1 devices_dir = main_table iter2 fs2 devices_dir"
  using assms by (rule main_table_cong)

theorem scan_is_deterministic_witness:
  "(\<forall>xs :: version list. set (id xs) = set xs)
   \<and> (\<forall>xs :: version list. set (rev xs) = set xs)
   \<and> (\<forall>path. rel_option (\<lambda>files1 files2. set files1 = set files2)
         ((\<lambda>p. if p = ''dev'' then Some [''e100-5.15-ethercat.c'', ''e100-6.1-ethercat.c'', ''Kbuild.in'']
               else Some ([] :: string list)) path)
         ((\<lambda>p. if p = ''dev'' then Some [''Kbuild.in'', ''e100-6.1-ethercat.c'', ''e100-5.15-ethercat.c'']
               else Some ([] :: string list)) path))
   \<and> main_table id
        (\<lambda>p. if p = ''dev'' then Some [''e100-5.15-ethercat.c'', ''e100-6.1-ethercat.c'', ''Kbuild.in'']
             else Some []) ''dev''
     = main_table rev
        (\<lambda>p. if p = ''dev'' then Some [''Kbuild.in'', ''e100-6.1-ethercat.c'', ''e100-5.15-ethercat.c'']
             else Some []) ''dev''"
proof -
  let ?fs1 = "\<lambda>p. if p = ''dev'' then Some [''e100-5.15-ethercat.c'', ''e100-6.1-ethercat.c'', ''Kbuild.in'']
               else Some ([] :: string list)"
  let ?fs2 = "\<lambda>p. if p = ''dev'' then Some [''Kbuild.in'', ''e100-6.1-ethercat.c'', ''e100-5.15-ethercat.c'']
               else Some ([] :: string list)"
  have i1: "\<forall>xs :: version list. set (id xs) = set xs" by simp
  have i2: "\<forall>xs :: version list. set (rev xs) = set xs" by simp
  have fs: "\<forall>path. rel_option (\<lambda>files1 files2. set files1 = set files2) (?fs1 path) (?fs2 path)"
    by auto
  have "main_table id ?fs1 ''dev'' = main_table rev ?fs2 ''dev''"
    using i1 i2 fs by (rule scan_is_deterministic)
  with i1 i2 fs show ?thesis by (intro conjI)
qed

text \<open>
  C10. The catalog has exactly two entries with the driver name \<open>r8169\<close>: the root
  directory with prefix \<open>r8169\<close>, and the subdirectory \<open>r8169\<close> with prefix \<open>r8169_main\<close>.
  When the scan succeeds, the header of the table has the column \<open>r8169\<close> once, and in
  the row of every version the cell of this column is \<open>X\<close> exactly when the version is
  among those that \<open>filter_versions\<close> finds for the first entry or among those it finds
  for the second (the union of the two sets); the other versions of the table have \<open>-\<close>
  there, and a version outside the table has no row.
\<close>

theorem r8169_column_is_union:
  assumes "\<forall>xs. set (iter xs) = set xs"
    and "get_all_drivers iter fs drivers_dir = Inr dict_data"
  shows "filter (\<lambda>entry. fst (snd entry) = ''r8169'') DRIVER_MAP
           = [(''.'', ''r8169'', ''r8169''), (''r8169'', ''r8169'', ''r8169_main'')]
       \<and> (\<exists>files tmp_files versions versions' table_data.
            fs drivers_dir = Some files
          \<and> fs (path_join drivers_dir ''r8169'') = Some tmp_files
          \<and> filter_versions files ''r8169'' ''c'' = Inr versions
          \<and> filter_versions tmp_files ''r8169_main'' ''c'' = Inr versions'
          \<and> compute_table dict_data = Inr table_data
          \<and> count_list (hd table_data) ''r8169'' = 1
          \<and> (\<forall>version. table_cell table_data version ''r8169''
                = (if version \<in> set versions \<union> set versions' then Some ''X''
                   else if version \<in> fst ` set dict_data then Some ''-'' else None)))"
  using r8169_entries r8169_cells [OF assms] by (rule conjI)

theorem r8169_column_is_union_witness:
  "(\<forall>xs :: version list. set (id xs) = set xs)
   \<and> get_all_drivers id
        (\<lambda>p. if p = ''dev'' then Some [''r8169-6.1-ethercat.c'', ''e100-5.15-ethercat.c'']
             else if p = ''dev/r8169'' then Some [''r8169_main-6.0-ethercat.c'']
             else Some []) ''dev''
       = Inr [((5, 15), {''e100''}), ((6, 1), {''r8169''}), ((6, 0), {''r8169''})]
   \<and> (\<exists>table_data.
         compute_table [((5, 15), {''e100''}), ((6, 1), {''r8169''}), ((6, 0), {''r8169''})]
           = Inr table_data
       \<and> table_cell table_data (6, 1) ''r8169'' = Some ''X''
       \<and> table_cell table_data (6, 0) ''r8169'' = Some ''X''
       \<and> table_cell table_data (5, 15) ''r8169'' = Some ''-''
       \<and> table_cell table_data (4, 0) ''r8169'' = None)"
proof -
  let ?fs = "\<lambda>p. if p = ''dev'' then Some [''r8169-6.1-ethercat.c'', ''e100-5.15-ethercat.c'']
             else if p = ''dev/r8169'' then Some [''r8169_main-6.0-ethercat.c'']
             else Some []"
  let ?d = "[((5, 15), {''e100''}), ((6, 1), {''r8169''}), ((6, 0), {''r8169''})] :: driver_table"
  have i: "\<forall>xs :: version list. set (id xs) = set xs" by simp
  have g: "get_all_drivers id ?fs ''dev'' = Inr ?d"
    by code_simp
  obtain files tmp_files versions versions' table_data
    where f: "?fs ''dev'' = Some files"
      and tf: "?fs (path_join ''dev'' ''r8169'') = Some tmp_files"
      and v: "filter_versions files ''r8169'' ''c'' = Inr versions"
      and v': "filter_versions tmp_files ''r8169_main'' ''c'' = Inr versions'"
      and t: "compute_table ?d = Inr table_data"
      and c: "\<forall>version. table_cell table_data version ''r8169''
                = (if version \<in> set versions \<union> set versions' then Some ''X''
                   else if version \<in> fst ` set ?d then Some ''-'' else None)"
    using r8169_column_is_union [OF i g] by (elim exE conjE)
  have "files = [''r8169-6.1-ethercat.c'', ''e100-5.15-ethercat.c'']"
    using f by simp
  moreover have "filter_versions [''r8169-6.1-ethercat.c'', ''e100-5.15-ethercat.c''] ''r8169'' ''c''
      = Inr [(6, 1)]"
    by code_simp
  ultimately have vs: "versions = [(6, 1)]" using v by simp
  have "tmp_files = [''r8169_main-6.0-ethercat.c'']"
    using tf by (simp add: path_join_def)
  moreover have "filter_versions [''r8169_main-6.0-ethercat.c''] ''r8169_main'' ''c'' = Inr [(6, 0)]"
    by code_simp
  ultimately have vs': "versions' = [(6, 0)]" using v' by simp
  have "table_cell table_data (6, 1) ''r8169'' = Some ''X''"
    and "table_cell table_data (6, 0) ''r8169'' = Some ''X''"
    and "table_cell table_data (5, 15) ''r8169'' = Some ''-''"
    and "table_cell table_data (4, 0) ''r8169'' = None"
    unfolding c [rule_format] vs vs' by simp_all
  with t have "\<exists>table_data. compute_table ?d = Inr table_data
       \<and> table_cell table_data (6, 1) ''r8169'' = Some ''X''
       \<and> table_cell table_data (6, 0) ''r8169'' = Some ''X''
       \<and> table_cell table_data (5, 15) ''r8169'' = Some ''-''
       \<and> table_cell table_data (4, 0) ''r8169'' = None"
    by (intro exI [of _ table_data] conjI)
  with i g show ?thesis by (intro conjI)
qed

text \<open>
  C4. \<open>filter_versions\<close> is to keep the versions of exactly the names that match the
  pattern from its first to its last character. It does not: a name that matches in
  full and is followed by one newline is kept as well, since \<open>$\<close> also matches before a
  newline that ends the name. The name \<open>e100-5.15-ethercat.c\<close> followed by a newline
  yields the version \<open>(5,15)\<close>, and it is not a full match for any version. (By
  \<open>filter_versions_exact\<close> these are the only names kept besides the full matches.)
\<close>

theorem newline_name_yields_version:
  "filter_versions [''e100-5.15-ethercat.c'' @ [newline]] ''e100'' ''c'' = Inr [(5, 15)]
   \<and> (\<forall>v. \<not> full_match ''e100'' ''c'' v (''e100-5.15-ethercat.c'' @ [newline]))"
proof -
  have "filter_versions [''e100-5.15-ethercat.c'' @ [newline]] ''e100'' ''c'' = Inr [(5, 15)]"
    by code_simp
  then show ?thesis using newline_name_no_full_match by blast
qed


text \<open>
  C1. A cell is to be \<open>X\<close> only if a file of the entry's directory matches in full. In
  a tree whose only file is \<open>e100-5.15-ethercat.c\<close> followed by a newline, in the root
  directory, the table has the row \<open>5.15\<close> with \<open>X\<close> under \<open>e100\<close>, and no file of the root
  directory is a full match for \<open>e100\<close> and \<open>(5,15)\<close>. (By \<open>cell_X_exact\<close> a cell is \<open>X\<close>
  exactly when a file of a directory of an entry with the column's driver name is a full
  match or a full match followed by one newline.)
\<close>

theorem newline_name_marks_cell:
  "main_table id
     (\<lambda>path. if path = ''dev'' then Some [''e100-5.15-ethercat.c'' @ [newline]] else Some [])
     ''dev''
     = Inr [''Kernel'' # DRIVERS,
            [''5.15'', ''-'', ''-'', ''-'', ''X'', ''-'', ''-'', ''-'', ''-'', ''-'', ''-'']]
   \<and> table_cell [''Kernel'' # DRIVERS,
            [''5.15'', ''-'', ''-'', ''-'', ''X'', ''-'', ''-'', ''-'', ''-'', ''-'', ''-'']]
         (5, 15) ''e100'' = Some ''X''
   \<and> \<not> (\<exists>file\<in>set [''e100-5.15-ethercat.c'' @ [newline]]. full_match ''e100'' ''c'' (5, 15) file)"
proof -
  have "main_table id
     (\<lambda>path. if path = ''dev'' then Some [''e100-5.15-ethercat.c'' @ [newline]] else Some [])
     ''dev''
     = Inr [''Kernel'' # DRIVERS,
            [''5.15'', ''-'', ''-'', ''-'', ''X'', ''-'', ''-'', ''-'', ''-'', ''-'', ''-'']]"
    by code_simp
  moreover have "table_cell [''Kernel'' # DRIVERS,
            [''5.15'', ''-'', ''-'', ''-'', ''X'', ''-'', ''-'', ''-'', ''-'', ''-'', ''-'']]
         (5, 15) ''e100'' = Some ''X''"
    by code_simp
  moreover have "\<not> (\<exists>file\<in>set [''e100-5.15-ethercat.c'' @ [newline]]. full_match ''e100'' ''c'' (5, 15) file)"
  proof
    assume "\<exists>file\<in>set [''e100-5.15-ethercat.c'' @ [newline]]. full_match ''e100'' ''c'' (5, 15) file"
    then have "full_match ''e100'' ''c'' (5, 15) (''e100-5.15-ethercat.c'' @ [newline])"
      by (simp del: append.simps)
    then show False by (rule newline_name_no_full_match [THEN notE])
  qed
  ultimately show ?thesis by (intro conjI)
qed

end
